theory Spec2Isabelle
  imports Main
begin

section \<open>Data model\<close>

text \<open>
  The registry of \<^verbatim>\<open>src/Process/ServerRegistry.C\<close> keeps two static lists of
  \<^verbatim>\<open>Server*\<close> and talks to the Preferences store, the file system, the parser and
  two message sinks. A call either returns, or leaves by a C++ \<^verbatim>\<open>Exception\<close>, or
  violates a precondition of \<^verbatim>\<open>QList\<close> (an index out of range, \<^verbatim>\<open>first()\<close> on
  an empty list): Qt asserts there, and without assertions the behaviour is undefined.
\<close>

datatype Failure = Exception string | Abort string

type_synonym 'a result = "Failure + 'a"

text \<open>
  Modelled from the spec: the class \<^verbatim>\<open>ServerConfiguration\<close> is declared outside
  \<^verbatim>\<open>src/\<close>. The spec describes it as a collection of named settings of which one
  designated setting is the display name. \<^verbatim>\<open>config.value(ServerName)\<close> is the
  field \<open>ServerName\<close>, \<^verbatim>\<open>config.setValue(ServerName, n)\<close> is the record update.
\<close>

record ServerConfiguration =
  ServerName :: string
  settings :: "(string \<times> string) list"

text \<open>
  Modelled from the spec: the class \<^verbatim>\<open>Server\<close> is declared outside \<^verbatim>\<open>src/\<close>.
  The spec describes it as the owner of exactly one configuration. A \<^verbatim>\<open>Server*\<close> is
  the address of the object together with the object; two pointers are equal when their
  addresses are.
\<close>

record Server =
  addr :: nat
  configuration :: ServerConfiguration

text \<open>
  Modelled from the spec: \<^verbatim>\<open>Server::name()\<close> is declared outside \<^verbatim>\<open>src/\<close>. The
  spec derives the name from the name setting of the server's configuration.
\<close>

definition name :: "Server \<Rightarrow> string" where
  "name s = ServerName (configuration s)"

text \<open>
  The process state: the three static members of the class, the allocator's next free
  address, the stored value behind \<^verbatim>\<open>Preferences::ServerConfigurationList\<close>
  (a list of opaque records of type \<open>'v\<close>), and what was written to
  \<^verbatim>\<open>QMsgBox::warning\<close>, \<^verbatim>\<open>qDebug()\<close> and \<^verbatim>\<open>QLOG_ERROR()\<close>.
\<close>

record 'v Registry =
  s_instance :: bool
  s_servers :: "Server list"
  s_deletedServers :: "Server list"
  nextAddr :: nat
  ServerConfigurationList :: "'v list"
  warnings :: "string list"
  qDebug :: "string list"
  qLogError :: "string list"

text \<open>
  The collaborators the registry only consumes, as parameters: the two conversions between
  an opaque record and a configuration (the constructor may throw, \<open>Inl\<close> carries
  \<^verbatim>\<open>what()\<close>), the default-constructed configuration, the constructor from a
  \<^verbatim>\<open>YamlNode\<close> (type \<open>'y\<close>), the search directory with the result of
  \<^verbatim>\<open>entryList("*.cfg", QDir::Files)\<close>, whether a path opens for reading, and what the
  parser leaves for a path: its error list and \<^verbatim>\<open>findData<YamlNode>()\<close>, a list of
  pointers (\<open>None\<close> is the null pointer).
\<close>

record ('v, 'y) Env =
  fromQVariant :: "'v \<Rightarrow> string + ServerConfiguration"
  toQVariant :: "ServerConfiguration \<Rightarrow> 'v"
  defaultConfiguration :: ServerConfiguration
  fromYamlNode :: "'y \<Rightarrow> string + ServerConfiguration"
  ServerDirectory :: string
  dirExists :: bool
  entryList :: "string list"
  fileOpens :: "string \<Rightarrow> bool"
  parserErrors :: "string \<Rightarrow> string list"
  parserYaml :: "string \<Rightarrow> 'y option list"

section \<open>QList and QString operations used by the registry\<close>

definition QList_at :: "'a list \<Rightarrow> int \<Rightarrow> 'a result" where
  "QList_at xs i =
     (if 0 \<le> i \<and> i < int (length xs) then Inr (xs ! nat i)
      else Inl (Abort ''QList::operator[]: index out of range''))"

definition QList_first :: "'a list \<Rightarrow> 'a result" where
  "QList_first xs =
     (case xs of [] \<Rightarrow> Inl (Abort ''QList::first: list is empty'') | x # _ \<Rightarrow> Inr x)"

definition QList_takeAt :: "'a list \<Rightarrow> int \<Rightarrow> ('a \<times> 'a list) result" where
  "QList_takeAt xs i =
     (if 0 \<le> i \<and> i < int (length xs)
      then Inr (xs ! nat i, take (nat i) xs @ drop (Suc (nat i)) xs)
      else Inl (Abort ''QList::takeAt: index out of range''))"

definition QList_swap :: "'a list \<Rightarrow> int \<Rightarrow> int \<Rightarrow> 'a list result" where
  "QList_swap xs i j =
     (if 0 \<le> i \<and> i < int (length xs) \<and> 0 \<le> j \<and> j < int (length xs)
      then Inr (xs[nat i := xs ! nat j, nat j := xs ! nat i])
      else Inl (Abort ''QList::swap: index out of range''))"

text \<open>\<^verbatim>\<open>QList<Server*>::indexOf(server)\<close>: the first position holding that pointer, or -1.\<close>

fun QList_indexOf :: "Server list \<Rightarrow> Server \<Rightarrow> int \<Rightarrow> int" where
  "QList_indexOf [] p i = - 1"
| "QList_indexOf (x # xs) p i = (if addr x = addr p then i else QList_indexOf xs p (i + 1))"

text \<open>\<^verbatim>\<open>QString::number(int)\<close>: the decimal numeral, with a minus sign below zero.\<close>

definition digit :: "nat \<Rightarrow> char" where
  "digit d = ''0123456789'' ! d"

fun numberNat :: "nat \<Rightarrow> string" where
  "numberNat n = (if n < 10 then [digit n] else numberNat (n div 10) @ [digit (n mod 10)])"

declare numberNat.simps [simp del]

definition number :: "int \<Rightarrow> string" where
  "number i = (if i < 0 then CHR ''-'' # numberNat (nat (- i)) else numberNat (nat i))"

section \<open>Lookup\<close>

text \<open>\<^verbatim>\<open>indexOf\<close>, lines 145-151: the loop over \<open>i\<close>, started at 0.\<close>

function indexOfLoop :: "Server list \<Rightarrow> string \<Rightarrow> int \<Rightarrow> int result" where
  "indexOfLoop xs serverName i =
     (if i < int (length xs)
      then (case QList_at xs i of
              Inl f \<Rightarrow> Inl f
            | Inr s \<Rightarrow> if name s = serverName then Inr i else indexOfLoop xs serverName (i + 1))
      else Inr (- 1))"
  by pat_completeness auto
termination
  by (relation "measure (\<lambda>(xs, n, i). nat (int (length xs) - i))") auto

definition indexOf :: "'v Registry \<Rightarrow> string \<Rightarrow> int result" where
  "indexOf st serverName = indexOfLoop (s_servers st) serverName 0"

text \<open>\<^verbatim>\<open>find\<close>, lines 105-110; \<open>None\<close> is the null pointer.\<close>

definition findServer :: "'v Registry \<Rightarrow> string \<Rightarrow> Server option result" where
  "findServer st serverName =
     (case indexOf st serverName of
        Inl f \<Rightarrow> Inl f
      | Inr index \<Rightarrow>
          if index \<ge> 0
          then (case QList_at (s_servers st) index of Inl f \<Rightarrow> Inl f | Inr s \<Rightarrow> Inr (Some s))
          else Inr None)"

text \<open>\<^verbatim>\<open>availableServers\<close>, lines 53-61.\<close>

definition availableServers :: "'v Registry \<Rightarrow> string list" where
  "availableServers st = map name (s_servers st)"

section \<open>Persistence\<close>

text \<open>\<^verbatim>\<open>saveToPreferences\<close>, lines 213-221: the stored list is replaced as a whole.\<close>

definition saveToPreferences :: "('v, 'y) Env \<Rightarrow> 'v Registry \<Rightarrow> 'v Registry" where
  "saveToPreferences env st =
     st\<lparr>ServerConfigurationList := map (\<lambda>s. toQVariant env (configuration s)) (s_servers st)\<rparr>"

text \<open>
  Modelled from the spec: \<^verbatim>\<open>save()\<close> is declared in \<^verbatim>\<open>ServerRegistry.h\<close>, outside
  \<^verbatim>\<open>src/\<close>. The spec says that every mutating operation re-persists the full
  collection through \<^verbatim>\<open>saveToPreferences()\<close>.
\<close>

definition save :: "('v, 'y) Env \<Rightarrow> 'v Registry \<Rightarrow> 'v Registry" where
  "save env st = saveToPreferences env st"

section \<open>Mutating operations\<close>

text \<open>\<^verbatim>\<open>new Server(config)\<close>: a fresh address, never handed out before.\<close>

definition newServer :: "ServerConfiguration \<Rightarrow> 'v Registry \<Rightarrow> Server \<times> 'v Registry" where
  "newServer config st =
     (\<lparr>addr = nextAddr st, configuration = config\<rparr>, st\<lparr>nextAddr := Suc (nextAddr st)\<rparr>)"

text \<open>
  The \<^verbatim>\<open>while (find(name))\<close> loop of \<^verbatim>\<open>addServer\<close>, lines 69-72, on its two
  variables \<open>count\<close> and \<open>name\<close>. The measure of the termination proof: names of the
  list are shorter than the numeral of any \<open>count\<close> from \<open>10 ^ m\<close> on, where \<open>m\<close> is
  the length of the longest name. The counter is an \<^verbatim>\<open>int\<close> in the source and an
  unbounded integer here; it stays within the length of the list.
\<close>

function addServerLoop ::
  "'v Registry \<Rightarrow> ServerConfiguration \<Rightarrow> int \<Rightarrow> string \<Rightarrow> (int \<times> string) result" where
  "addServerLoop st config count nm =
     (case findServer st nm of
        Inl f \<Rightarrow> Inl f
      | Inr None \<Rightarrow> Inr (count, nm)
      | Inr (Some s) \<Rightarrow>
          addServerLoop st config (count + 1) (ServerName config @ ''_'' @ number (count + 1)))"
  by pat_completeness auto
termination
proof -
  have loop: "indexOfLoop xs n i = Inr k \<Longrightarrow> 0 \<le> k \<Longrightarrow> k < int (length xs) \<and> name (xs ! nat k) = n"
    for xs n i k
  proof (induction xs n i rule: indexOfLoop.induct)
    case (1 xs serverName i)
    show ?case
    proof (cases "i < int (length xs)")
      case False
      with "1.prems" show ?thesis by simp
    next
      case True
      show ?thesis
      proof (cases "0 \<le> i")
        case False
        with True "1.prems" show ?thesis by (simp add: QList_at_def)
      next
        case nonneg: True
        show ?thesis
        proof (cases "name (xs ! nat i) = serverName")
          case True
          with \<open>i < int (length xs)\<close> nonneg "1.prems" show ?thesis
            by (auto simp: QList_at_def)
        next
          case False
          with \<open>i < int (length xs)\<close> nonneg "1.prems" "1.IH" [of "xs ! nat i"] show ?thesis
            by (simp add: QList_at_def)
        qed
      qed
    qed
  qed
  have found: "findServer st n = Inr (Some s) \<Longrightarrow> n \<in> name ` set (s_servers st)"
    for st :: "'a Registry" and n s
  proof -
    assume a: "findServer st n = Inr (Some s)"
    then obtain k where k: "indexOf st n = Inr k" "0 \<le> k"
      by (auto simp: findServer_def split: sum.splits if_splits)
    from loop [OF k(1) [unfolded indexOf_def] k(2)]
    have "nat k < length (s_servers st)" "name (s_servers st ! nat k) = n"
      using k(2) by auto
    then show ?thesis
      by (metis imageI nth_mem)
  qed
  have digits: "10 ^ k \<le> n \<Longrightarrow> k < length (numberNat n)" for k n
  proof (induction k arbitrary: n)
    case 0
    show ?case by (subst numberNat.simps) simp
  next
    case (Suc k)
    have step: "10 * m \<le> n \<Longrightarrow> 1 \<le> m \<Longrightarrow> m \<le> n div 10 \<and> \<not> n < 10" for m :: nat
      by arith
    have one: "(1::nat) \<le> 10 ^ k" by simp
    from Suc.prems have "10 * 10 ^ k \<le> n" by simp
    from step [OF this one] have "10 ^ k \<le> n div 10" "\<not> n < 10"
      by blast+
    with Suc.IH [of "n div 10"] show ?case
      by (subst numberNat.simps) simp
  qed
  define bound :: "'a Registry \<Rightarrow> nat" where
    "bound st = Max (insert 0 (length ` name ` set (s_servers st)))" for st
  have short: "n \<in> name ` set (s_servers st) \<Longrightarrow> length n \<le> bound st"
    for n and st :: "'a Registry"
    unfolding bound_def by (intro Max_ge) auto
  have fresh: "10 ^ bound st \<le> c \<Longrightarrow> findServer st (b @ ''_'' @ number c) \<noteq> Inr (Some s)"
    for st :: "'a Registry" and c b s
  proof
    assume c: "10 ^ bound st \<le> c" and f: "findServer st (b @ ''_'' @ number c) = Inr (Some s)"
    from c have "0 \<le> c" by (smt (verit) zero_le_power)
    with c have "10 ^ bound st \<le> nat c"
      by (metis nat_le_iff of_nat_numeral of_nat_power zle_int nat_0_le)
    from digits [OF this] \<open>0 \<le> c\<close> have "bound st < length (number c)"
      by (simp add: number_def)
    moreover from short [OF found [OF f]] have "length (number c) \<le> bound st"
      by simp
    ultimately show False by simp
  qed
  show ?thesis
  proof (relation "measure (\<lambda>(st, config, count, nm).
      (case findServer st nm of Inr (Some s) \<Rightarrow> 1 | _ \<Rightarrow> 0) + 2 * nat (10 ^ bound st - count))",
      goal_cases)
    case 1
    show ?case by simp
  next
    case (2 st config count nm x s)
    show ?case
    proof (cases "10 ^ bound st \<le> count + 1")
      case True
      from fresh [OF True] have
        "(case findServer st (ServerName config @ ''_'' @ number (count + 1)) of
            Inr (Some s) \<Rightarrow> 1 | _ \<Rightarrow> 0) = (0::nat)"
        by (auto split: sum.splits option.splits)
      with True 2 show ?thesis by simp
    next
      case False
      then have "2 * nat (10 ^ bound st - (count + 1)) + 2 \<le> 2 * nat (10 ^ bound st - count)"
        by arith
      moreover have
        "(case findServer st (ServerName config @ ''_'' @ number (count + 1)) of
            Inr (Some s) \<Rightarrow> 1 | _ \<Rightarrow> 0) \<le> (1::nat)"
        by (simp split: sum.splits option.splits)
      ultimately show ?thesis
        using 2 by simp
    qed
  qed
qed

text \<open>
  \<^verbatim>\<open>addServer\<close>, lines 64-81. The configuration is passed by reference: the result
  holds the new server, the caller's configuration with the resolved name, and the state.
\<close>

definition addServer ::
  "('v, 'y) Env \<Rightarrow> ServerConfiguration \<Rightarrow> 'v Registry
     \<Rightarrow> (Server \<times> ServerConfiguration \<times> 'v Registry) result" where
  "addServer env config st =
     (case addServerLoop st config 0 (ServerName config) of
        Inl f \<Rightarrow> Inl f
      | Inr (count, nm) \<Rightarrow>
          (let config' = config\<lparr>ServerName := nm\<rparr>;
               (server, st1) = newServer config' st;
               st2 = st1\<lparr>s_servers := s_servers st1 @ [server]\<rparr>
           in Inr (server, config', save env st2)))"

text \<open>\<^verbatim>\<open>remove(QString const&)\<close>, lines 113-118.\<close>

definition removeName :: "('v, 'y) Env \<Rightarrow> string \<Rightarrow> 'v Registry \<Rightarrow> 'v Registry result" where
  "removeName env serverName st =
     (case indexOf st serverName of
        Inl f \<Rightarrow> Inl f
      | Inr index \<Rightarrow>
          if index \<ge> 0
          then (case QList_takeAt (s_servers st) index of
                  Inl f \<Rightarrow> Inl f
                | Inr (s, rest) \<Rightarrow>
                    Inr (save env (st\<lparr>s_servers := rest,
                                       s_deletedServers := s_deletedServers st @ [s]\<rparr>)))
          else Inr (save env st))"

text \<open>\<^verbatim>\<open>remove(Server*)\<close>, lines 121-126.\<close>

definition removeServer :: "('v, 'y) Env \<Rightarrow> Server \<Rightarrow> 'v Registry \<Rightarrow> 'v Registry result" where
  "removeServer env server st =
     (let index = QList_indexOf (s_servers st) server 0
      in if index \<ge> 0
         then (case QList_takeAt (s_servers st) index of
                 Inl f \<Rightarrow> Inl f
               | Inr (s, rest) \<Rightarrow>
                   Inr (save env (st\<lparr>s_servers := rest,
                                      s_deletedServers := s_deletedServers st @ [s]\<rparr>)))
         else Inr (save env st))"

text \<open>\<^verbatim>\<open>moveUp\<close>, lines 129-134.\<close>

definition moveUp :: "('v, 'y) Env \<Rightarrow> string \<Rightarrow> 'v Registry \<Rightarrow> 'v Registry result" where
  "moveUp env serverName st =
     (case indexOf st serverName of
        Inl f \<Rightarrow> Inl f
      | Inr index \<Rightarrow>
          if index > 0
          then (case QList_swap (s_servers st) index (index - 1) of
                  Inl f \<Rightarrow> Inl f
                | Inr xs \<Rightarrow> Inr (save env (st\<lparr>s_servers := xs\<rparr>)))
          else Inr (save env st))"

text \<open>\<^verbatim>\<open>moveDown\<close>, lines 137-142.\<close>

definition moveDown :: "('v, 'y) Env \<Rightarrow> string \<Rightarrow> 'v Registry \<Rightarrow> 'v Registry result" where
  "moveDown env serverName st =
     (case indexOf st serverName of
        Inl f \<Rightarrow> Inl f
      | Inr index \<Rightarrow>
          if index < int (length (s_servers st)) - 1
          then (case QList_swap (s_servers st) index (index + 1) of
                  Inl f \<Rightarrow> Inl f
                | Inr xs \<Rightarrow> Inr (save env (st\<lparr>s_servers := xs\<rparr>)))
          else Inr (save env st))"

section \<open>Bootstrap\<close>

text \<open>\<^verbatim>\<open>QStringList::join(sep)\<close>.\<close>

fun QStringList_join :: "string list \<Rightarrow> string \<Rightarrow> string" where
  "QStringList_join [] sep = []"
| "QStringList_join [x] sep = x"
| "QStringList_join (x # y # ys) sep = x @ sep @ QStringList_join (y # ys) sep"

text \<open>
  \<^verbatim>\<open>loadFromFile\<close>, lines 224-252. The configuration is an out parameter. An
  exception of the constructor from the \<^verbatim>\<open>YamlNode\<close> leaves the function with the
  state reached so far. \<^verbatim>\<open>dump()\<close> prints the node and changes nothing else; it is
  left out.
\<close>

definition loadFromFile ::
  "('v, 'y) Env \<Rightarrow> string \<Rightarrow> ServerConfiguration \<Rightarrow> 'v Registry
     \<Rightarrow> (Failure \<times> 'v Registry) + (bool \<times> ServerConfiguration \<times> 'v Registry)" where
  "loadFromFile env filePath serverConfig st =
     (if \<not> fileOpens env filePath
      then Inr (False, serverConfig,
                st\<lparr>qLogError := qLogError st @
                      [''Server configuraiton file does not exist'' @ filePath]\<rparr>)
      else
        (let errors = parserErrors env filePath;
             st1 = (if errors \<noteq> []
                    then st\<lparr>qLogError := qLogError st @ [QStringList_join errors [CHR 0x0A]]\<rparr>
                    else st);
             yaml = parserYaml env filePath
         in case QList_first yaml of
              Inl f \<Rightarrow> Inl (f, st1)
            | Inr None \<Rightarrow> Inr (False, serverConfig, st1)
            | Inr (Some node) \<Rightarrow>
                (case fromYamlNode env node of
                   Inl what \<Rightarrow> Inl (Exception what, st1)
                 | Inr c \<Rightarrow> Inr (True, c, st1))))"

text \<open>The loop over the stored records, lines 172-174.\<close>

fun loadRecords ::
  "('v, 'y) Env \<Rightarrow> 'v list \<Rightarrow> 'v Registry \<Rightarrow> (Failure \<times> 'v Registry) + 'v Registry" where
  "loadRecords env [] st = Inr st"
| "loadRecords env (r # rs) st =
     (case fromQVariant env r of
        Inl what \<Rightarrow> Inl (Exception what, st)
      | Inr c \<Rightarrow>
          (let (server, st1) = newServer c st
           in loadRecords env rs (st1\<lparr>s_servers := s_servers st1 @ [server]\<rparr>)))"

text \<open>\<^verbatim>\<open>QFileInfo(dir, name).absoluteFilePath()\<close>.\<close>

definition absoluteFilePath :: "('v, 'y) Env \<Rightarrow> string \<Rightarrow> string" where
  "absoluteFilePath env f = ServerDirectory env @ ''/'' @ f"

text \<open>The loop over the directory listing, lines 187-195.\<close>

fun loadFiles ::
  "('v, 'y) Env \<Rightarrow> string list \<Rightarrow> 'v Registry \<Rightarrow> (Failure \<times> 'v Registry) + 'v Registry" where
  "loadFiles env [] st = Inr st"
| "loadFiles env (f # fs) st =
     (let st1 = st\<lparr>qDebug := qDebug st @
                  [''Reading server configutation from: '' @ absoluteFilePath env f]\<rparr>
      in case loadFromFile env (absoluteFilePath env f) (defaultConfiguration env) st1 of
           Inl e \<Rightarrow> Inl e
         | Inr (ok, serverConfiguration, st2) \<Rightarrow>
             if ok
             then (case addServer env serverConfiguration st2 of
                     Inl e \<Rightarrow> Inl (e, st2)
                   | Inr (server, config, st3) \<Rightarrow> loadFiles env fs st3)
             else loadFiles env fs st2)"

text \<open>The body of the \<^verbatim>\<open>try\<close> block, lines 172-203.\<close>

definition loadFromPreferences_try ::
  "('v, 'y) Env \<Rightarrow> 'v Registry \<Rightarrow> (Failure \<times> 'v Registry) + 'v Registry" where
  "loadFromPreferences_try env st =
     (case loadRecords env (ServerConfigurationList st) st of
        Inl e \<Rightarrow> Inl e
      | Inr st1 \<Rightarrow>
          (case (if s_servers st1 = []
                 then (let st2 = st1\<lparr>qDebug := qDebug st1 @
                               [''Server Directory set to: '' @ ServerDirectory env]\<rparr>
                       in if dirExists env then loadFiles env (entryList env) st2 else Inr st2)
                 else Inr st1) of
             Inl e \<Rightarrow> Inl e
           | Inr st3 \<Rightarrow>
               if s_servers st3 = []
               then (let st4 = st3\<lparr>qDebug := qDebug st3 @ [''Appending Q-Chem server'']\<rparr>;
                         (server, st5) = newServer (defaultConfiguration env) st4
                     in Inr (st5\<lparr>s_servers := s_servers st5 @ [server]\<rparr>))
               else Inr st3))"

text \<open>
  \<^verbatim>\<open>loadFromPreferences\<close>, lines 166-210: the handler catches \<^verbatim>\<open>Exception\<close>
  and shows a warning; nothing else runs after it.
\<close>

definition loadFromPreferences :: "('v, 'y) Env \<Rightarrow> 'v Registry \<Rightarrow> 'v Registry result" where
  "loadFromPreferences env st =
     (case loadFromPreferences_try env st of
        Inr st1 \<Rightarrow> Inr st1
      | Inl (Exception what, st1) \<Rightarrow>
          Inr (st1\<lparr>warnings := warnings st1 @
                 [''Problem loading servers from Preferences file:'' @ [CHR 0x0A] @ what]\<rparr>)
      | Inl (Abort what, st1) \<Rightarrow> Inl (Abort what))"

text \<open>
  \<^verbatim>\<open>instance\<close>, lines 41-50. The registry object has no members of its own: the
  pointer \<^verbatim>\<open>s_instance\<close> is either null or set. The registration of
  \<^verbatim>\<open>destroy\<close> for the end of the process is left out.
\<close>

definition instanceRegistry :: "('v, 'y) Env \<Rightarrow> 'v Registry \<Rightarrow> 'v Registry result" where
  "instanceRegistry env st =
     (if \<not> s_instance st then loadFromPreferences env (st\<lparr>s_instance := True\<rparr>) else Inr st)"

text \<open>The state of a process that has just started, over a given stored list.\<close>

definition processStart :: "'v list \<Rightarrow> 'v Registry" where
  "processStart stored =
     \<lparr>s_instance = False, s_servers = [], s_deletedServers = [], nextAddr = 0,
      ServerConfigurationList = stored, warnings = [], qDebug = [], qLogError = []\<rparr>"

section \<open>Sequences of calls\<close>

datatype Call =
    AddServer ServerConfiguration
  | RemoveName string
  | RemoveServer Server
  | MoveUp string
  | MoveDown string

fun call :: "('v, 'y) Env \<Rightarrow> Call \<Rightarrow> 'v Registry \<Rightarrow> 'v Registry result" where
  "call env (AddServer config) st =
     (case addServer env config st of Inl f \<Rightarrow> Inl f | Inr (server, config', st') \<Rightarrow> Inr st')"
| "call env (RemoveName n) st = removeName env n st"
| "call env (RemoveServer p) st = removeServer env p st"
| "call env (MoveUp n) st = moveUp env n st"
| "call env (MoveDown n) st = moveDown env n st"

fun calls :: "('v, 'y) Env \<Rightarrow> Call list \<Rightarrow> 'v Registry \<Rightarrow> 'v Registry result" where
  "calls env [] st = Inr st"
| "calls env (c # cs) st =
     (case call env c st of Inl f \<Rightarrow> Inl f | Inr st' \<Rightarrow> calls env cs st')"

section \<open>Notions used in the statements\<close>

text \<open>
  The stored list is the serialization of the active servers, in order.
\<close>

definition persisted :: "('v, 'y) Env \<Rightarrow> 'v Registry \<Rightarrow> bool" where
  "persisted env st \<longleftrightarrow>
     ServerConfigurationList st = map (\<lambda>s. toQVariant env (configuration s)) (s_servers st)"

text \<open>
  What the spec says of collision resolution, in its words: the name \<open>r\<close> given to a
  configuration with display name \<open>d\<close> is absent from the names already there; it is \<open>d\<close>
  itself when \<open>d\<close> is absent, and otherwise \<open>d_N\<close> for the first \<open>N = 1, 2, 3, ...\<close>
  whose \<open>d_N\<close> is absent.
\<close>

definition resolved :: "string \<Rightarrow> string list \<Rightarrow> string \<Rightarrow> bool" where
  "resolved d names r \<longleftrightarrow>
     r \<notin> set names \<and>
     (if d \<in> set names
      then \<exists>N. 1 \<le> N \<and> r = d @ ''_'' @ number N \<and>
             (\<forall>k. 1 \<le> k \<and> k < N \<longrightarrow> d @ ''_'' @ number k \<in> set names)
      else r = d)"

text \<open>
  The claim "the first entry with a given display name keeps the unsuffixed name", for
  the display names of a sequence of \<^verbatim>\<open>addServer\<close> calls and the names they produce.
\<close>

definition firstKeepsName :: "string list \<Rightarrow> string list \<Rightarrow> bool" where
  "firstKeepsName ds rs \<longleftrightarrow>
     (\<forall>i < length ds. ds ! i \<notin> set (take i ds) \<longrightarrow> rs ! i = ds ! i)"

text \<open>
  Objects that are alive have different addresses, below the allocator's next one. Both
  lists hold live objects: nothing is freed before \<^verbatim>\<open>destroy\<close>.
\<close>

definition liveObjects :: "'v Registry \<Rightarrow> bool" where
  "liveObjects st \<longleftrightarrow>
     distinct (map addr (s_servers st @ s_deletedServers st)) \<and>
     (\<forall>s \<in> set (s_servers st @ s_deletedServers st). addr s < nextAddr st)"

text \<open>
  A concrete environment for the examples: an opaque record and a \<^verbatim>\<open>YamlNode\<close> are
  either malformed (\<open>None\<close>, the constructor throws) or carry a configuration; no search
  directory.
\<close>

definition exampleEnv :: "(ServerConfiguration option, ServerConfiguration option) Env" where
  "exampleEnv =
     \<lparr>fromQVariant = (\<lambda>v. case v of None \<Rightarrow> Inl ''Invalid server configuration'' | Some c \<Rightarrow> Inr c),
      toQVariant = Some,
      defaultConfiguration = \<lparr>ServerName = ''Server'', settings = []\<rparr>,
      fromYamlNode = (\<lambda>v. case v of None \<Rightarrow> Inl ''Invalid server configuration'' | Some c \<Rightarrow> Inr c),
      ServerDirectory = ''/share'',
      dirExists = False,
      entryList = [],
      fileOpens = (\<lambda>p. False),
      parserErrors = (\<lambda>p. []),
      parserYaml = (\<lambda>p. [])\<rparr>"

definition cfg :: "string \<Rightarrow> ServerConfiguration" where
  "cfg n = \<lparr>ServerName = n, settings = []\<rparr>"

text \<open>The state after bootstrap from a store holding the one record \<open>a\<close>.\<close>

definition oneServer :: "ServerConfiguration option Registry" where
  "oneServer =
     \<lparr>s_instance = True, s_servers = [\<lparr>addr = 0, configuration = cfg ''a''\<rparr>],
      s_deletedServers = [], nextAddr = 1, ServerConfigurationList = [Some (cfg ''a'')],
      warnings = [], qDebug = [], qLogError = []\<rparr>"

text \<open>The same registry after \<^verbatim>\<open>remove("a")\<close>: the active list is empty.\<close>

definition noServers :: "ServerConfiguration option Registry" where
  "noServers =
     \<lparr>s_instance = True, s_servers = [],
      s_deletedServers = [\<lparr>addr = 0, configuration = cfg ''a''\<rparr>], nextAddr = 1,
      ServerConfigurationList = [], warnings = [], qDebug = [], qLogError = []\<rparr>"

text \<open>
  An environment whose search directory holds the one file \<open>a.cfg\<close>, which opens and in
  which the parser finds no \<^verbatim>\<open>YamlNode\<close>; and one whose file \<open>q.cfg\<close> holds the
  configuration of a server \<open>q\<close>.
\<close>

definition emptyFileEnv :: "(ServerConfiguration option, ServerConfiguration option) Env" where
  "emptyFileEnv =
     exampleEnv\<lparr>dirExists := True, entryList := [''a.cfg''], fileOpens := (\<lambda>p. True)\<rparr>"

definition oneFileEnv :: "(ServerConfiguration option, ServerConfiguration option) Env" where
  "oneFileEnv =
     exampleEnv\<lparr>dirExists := True, entryList := [''q.cfg''], fileOpens := (\<lambda>p. True),
                parserYaml := (\<lambda>p. [Some (Some (cfg ''q''))])\<rparr>"

text \<open>A registry with the three servers \<open>a\<close>, \<open>b\<close>, \<open>c\<close>.\<close>

definition threeServers :: "ServerConfiguration option Registry" where
  "threeServers =
     \<lparr>s_instance = True,
      s_servers = [\<lparr>addr = 0, configuration = cfg ''a''\<rparr>,
                   \<lparr>addr = 1, configuration = cfg ''b''\<rparr>,
                   \<lparr>addr = 2, configuration = cfg ''c''\<rparr>],
      s_deletedServers = [], nextAddr = 3,
      ServerConfigurationList = [Some (cfg ''a''), Some (cfg ''b''), Some (cfg ''c'')],
      warnings = [], qDebug = [], qLogError = []\<rparr>"

text \<open>
  The two ways in which \<^verbatim>\<open>loadFromFile\<close> returns for a file of the listing. It
  reports success (the file is importable): the file opens, the parser's output starts
  with a node, and a configuration is constructed from that node. It reports failure: the
  file does not open, or the first pointer of the parser's output is null. A file that
  opens and in which the parser finds no node, or whose node makes the constructor throw,
  is neither: \<^verbatim>\<open>loadFromFile\<close> does not return for it.
\<close>

definition importable :: "('v, 'y) Env \<Rightarrow> string \<Rightarrow> bool" where
  "importable env f \<longleftrightarrow>
     fileOpens env (absoluteFilePath env f) \<and>
     (case parserYaml env (absoluteFilePath env f) of
        Some node # rest \<Rightarrow> (case fromYamlNode env node of Inr c \<Rightarrow> True | Inl what \<Rightarrow> False)
      | _ \<Rightarrow> False)"

definition reportsFailure :: "('v, 'y) Env \<Rightarrow> string \<Rightarrow> bool" where
  "reportsFailure env f \<longleftrightarrow>
     (if fileOpens env (absoluteFilePath env f)
      then (case parserYaml env (absoluteFilePath env f) of None # rest \<Rightarrow> True | _ \<Rightarrow> False)
      else True)"

text \<open>The display names of the stored records from which a configuration is constructed.\<close>

definition recordNames :: "('v, 'y) Env \<Rightarrow> 'v list \<Rightarrow> string list" where
  "recordNames env rs =
     concat (map (\<lambda>r. case fromQVariant env r of Inl what \<Rightarrow> [] | Inr c \<Rightarrow> [ServerName c]) rs)"

text \<open>A process is started over a stored list and asks for the registry.\<close>

definition bootstrap :: "('v, 'y) Env \<Rightarrow> 'v list \<Rightarrow> 'v Registry result" where
  "bootstrap env stored = instanceRegistry env (processStart stored)"

definition bootstrapNames :: "('v, 'y) Env \<Rightarrow> 'v list \<Rightarrow> string list result" where
  "bootstrapNames env stored =
     (case bootstrap env stored of Inl f \<Rightarrow> Inl f | Inr st \<Rightarrow> Inr (availableServers st))"

text \<open>
  \<^verbatim>\<open>saveToPreferences()\<close>, then a fresh bootstrap against the stored value; the
  configurations of the active list it ends with.
\<close>

definition reload :: "('v, 'y) Env \<Rightarrow> 'v Registry \<Rightarrow> 'v Registry result" where
  "reload env st = bootstrap env (ServerConfigurationList (saveToPreferences env st))"

definition reloadedConfigurations ::
  "('v, 'y) Env \<Rightarrow> 'v Registry \<Rightarrow> ServerConfiguration list result" where
  "reloadedConfigurations env st =
     (case reload env st of Inl f \<Rightarrow> Inl f | Inr st' \<Rightarrow> Inr (map configuration (s_servers st')))"

text \<open>
  An environment whose search directory holds the one file \<open>b.cfg\<close>, which opens and
  holds a node from which no configuration is constructed: the constructor throws.
\<close>

definition badFileEnv :: "(ServerConfiguration option, ServerConfiguration option) Env" where
  "badFileEnv =
     exampleEnv\<lparr>dirExists := True, entryList := [''b.cfg''], fileOpens := (\<lambda>p. True),
                parserYaml := (\<lambda>p. [Some None])\<rparr>"

text \<open>
  A process is started over a stored list, asks for the registry and makes a sequence of
  calls; the names of the active list it ends with, and what \<^verbatim>\<open>find\<close> and
  \<^verbatim>\<open>indexOf\<close> return there.
\<close>

definition session :: "('v, 'y) Env \<Rightarrow> 'v list \<Rightarrow> Call list \<Rightarrow> 'v Registry result" where
  "session env stored cs =
     (case bootstrap env stored of Inl f \<Rightarrow> Inl f | Inr st \<Rightarrow> calls env cs st)"

definition sessionNames :: "('v, 'y) Env \<Rightarrow> 'v list \<Rightarrow> Call list \<Rightarrow> string list result" where
  "sessionNames env stored cs =
     (case session env stored cs of Inl f \<Rightarrow> Inl f | Inr st \<Rightarrow> Inr (availableServers st))"

definition sessionFind ::
  "('v, 'y) Env \<Rightarrow> 'v list \<Rightarrow> Call list \<Rightarrow> string \<Rightarrow> Server option result" where
  "sessionFind env stored cs n =
     (case session env stored cs of Inl f \<Rightarrow> Inl f | Inr st \<Rightarrow> findServer st n)"

definition sessionIndexOf ::
  "('v, 'y) Env \<Rightarrow> 'v list \<Rightarrow> Call list \<Rightarrow> string \<Rightarrow> int result" where
  "sessionIndexOf env stored cs n =
     (case session env stored cs of Inl f \<Rightarrow> Inl f | Inr st \<Rightarrow> indexOf st n)"

text \<open>The names in the active list after a sequence of calls.\<close>

definition namesAfter ::
  "('v, 'y) Env \<Rightarrow> Call list \<Rightarrow> 'v Registry \<Rightarrow> string list result" where
  "namesAfter env cs st =
     (case calls env cs st of Inl f \<Rightarrow> Inl f | Inr st' \<Rightarrow> Inr (availableServers st'))"

section \<open>What the lookups and the operations return\<close>

lemma indexOfLoop_spec:
  "0 \<le> i \<Longrightarrow> i \<le> int (length xs) \<Longrightarrow>
   \<exists>k. indexOfLoop xs n i = Inr k \<and>
     (if n \<in> name ` set (drop (nat i) xs)
      then i \<le> k \<and> k < int (length xs) \<and> name (xs ! nat k) = n \<and>
           (\<forall>j. nat i \<le> j \<and> j < nat k \<longrightarrow> name (xs ! j) \<noteq> n)
      else k = - 1)"
proof (induction xs n i rule: indexOfLoop.induct)
  case (1 xs n i)
  show ?case
  proof (cases "i < int (length xs)")
    case False
    with "1.prems" have "i = int (length xs)" by simp
    then show ?thesis by simp
  next
    case True
    with "1.prems" have at: "QList_at xs i = Inr (xs ! nat i)"
      by (simp add: QList_at_def)
    from True "1.prems" have dr: "drop (nat i) xs = xs ! nat i # drop (nat (i + 1)) xs"
      by (simp add: Cons_nth_drop_Suc nat_add_distrib)
    show ?thesis
    proof (cases "name (xs ! nat i) = n")
      case hit: True
      with True at dr "1.prems" show ?thesis by auto
    next
      case miss: False
      from "1.IH" [OF True at miss] True "1.prems"
      obtain k where k: "indexOfLoop xs n (i + 1) = Inr k"
        "if n \<in> name ` set (drop (nat (i + 1)) xs)
         then i + 1 \<le> k \<and> k < int (length xs) \<and> name (xs ! nat k) = n \<and>
           (\<forall>j. nat (i + 1) \<le> j \<and> j < nat k \<longrightarrow> name (xs ! j) \<noteq> n)
         else k = - 1"
        by auto
      have eq: "indexOfLoop xs n i = Inr k"
        using True at miss k(1) by simp
      have mem: "n \<in> name ` set (drop (nat i) xs) \<longleftrightarrow> n \<in> name ` set (drop (nat (i + 1)) xs)"
        using dr miss by auto
      show ?thesis
      proof (cases "n \<in> name ` set (drop (nat (i + 1)) xs)")
        case False
        with k eq mem show ?thesis by simp
      next
        case in_rest: True
        with k have kk: "i + 1 \<le> k" "k < int (length xs)" "name (xs ! nat k) = n"
          and before: "\<forall>j. nat (i + 1) \<le> j \<and> j < nat k \<longrightarrow> name (xs ! j) \<noteq> n"
          by simp_all
        have "\<forall>j. nat i \<le> j \<and> j < nat k \<longrightarrow> name (xs ! j) \<noteq> n"
        proof (intro allI impI)
          fix j assume j: "nat i \<le> j \<and> j < nat k"
          show "name (xs ! j) \<noteq> n"
          proof (cases "j = nat i")
            case True with miss show ?thesis by simp
          next
            case False
            with j "1.prems" have "nat (i + 1) \<le> j" by (simp add: nat_add_distrib)
            with before j show ?thesis by simp
          qed
        qed
        with kk eq mem in_rest show ?thesis by simp
      qed
    qed
  qed
qed

lemma indexOf_absent:
  "n \<notin> set (availableServers st) \<Longrightarrow> indexOf st n = Inr (- 1)"
  using indexOfLoop_spec [of 0 "s_servers st" n]
  by (auto simp: indexOf_def availableServers_def)

lemma indexOf_present:
  assumes "n \<in> set (availableServers st)"
  shows "\<exists>k. indexOf st n = Inr (int k) \<and> k < length (s_servers st) \<and>
           name (s_servers st ! k) = n \<and> (\<forall>j<k. name (s_servers st ! j) \<noteq> n)"
proof -
  from assms indexOfLoop_spec [of 0 "s_servers st" n]
  obtain k where k: "indexOfLoop (s_servers st) n 0 = Inr k" "0 \<le> k"
    "k < int (length (s_servers st))" "name (s_servers st ! nat k) = n"
    "\<forall>j. j < nat k \<longrightarrow> name (s_servers st ! j) \<noteq> n"
    by (auto simp: availableServers_def)
  then have "indexOf st n = Inr (int (nat k))" "nat k < length (s_servers st)"
    by (simp_all add: indexOf_def)
  with k show ?thesis by blast
qed

lemma indexOf_distinct:
  assumes "distinct (availableServers st)" and "i < length (s_servers st)"
  shows "indexOf st (name (s_servers st ! i)) = Inr (int i)"
proof -
  from assms(2) have "name (s_servers st ! i) \<in> set (availableServers st)"
    by (simp add: availableServers_def)
  from indexOf_present [OF this] obtain k where
    k: "indexOf st (name (s_servers st ! i)) = Inr (int k)" "k < length (s_servers st)"
       "name (s_servers st ! k) = name (s_servers st ! i)"
    by blast
  from assms k(2,3) have "k = i"
    by (auto simp: availableServers_def distinct_conv_nth)
  with k(1) show ?thesis by simp
qed

lemma indexOf_range:
  "indexOf st n = Inr k \<Longrightarrow> - 1 \<le> k \<and> k < int (length (s_servers st))"
  by (cases "n \<in> set (availableServers st)")
     (auto dest: indexOf_present indexOf_absent)

lemma findServer_absent:
  "n \<notin> set (availableServers st) \<Longrightarrow> findServer st n = Inr None"
  by (simp add: findServer_def indexOf_absent)

lemma findServer_present:
  assumes "n \<in> set (availableServers st)"
  shows "\<exists>k. findServer st n = Inr (Some (s_servers st ! k)) \<and> k < length (s_servers st) \<and>
           name (s_servers st ! k) = n \<and> (\<forall>j<k. name (s_servers st ! j) \<noteq> n)"
proof -
  from indexOf_present [OF assms] obtain k where
    k: "indexOf st n = Inr (int k)" "k < length (s_servers st)"
       "name (s_servers st ! k) = n" "\<forall>j<k. name (s_servers st ! j) \<noteq> n"
    by blast
  then have "findServer st n = Inr (Some (s_servers st ! k))"
    by (simp add: findServer_def QList_at_def)
  with k show ?thesis by blast
qed

lemma findServer_None_iff:
  "findServer st n = Inr None \<longleftrightarrow> n \<notin> set (availableServers st)"
  using findServer_present [of n st] findServer_absent [of n st] by auto

lemma findServer_total: "\<exists>r. findServer st n = Inr r"
  using findServer_present [of n st] findServer_absent [of n st] by blast

lemma addServerLoop_spec:
  "\<exists>c nm'. addServerLoop st config count nm = Inr (c, nm') \<and>
      nm' \<notin> set (availableServers st) \<and>
      (if nm \<in> set (availableServers st)
       then count < c \<and> nm' = ServerName config @ ''_'' @ number c \<and>
            (\<forall>k. count < k \<and> k < c \<longrightarrow>
                 ServerName config @ ''_'' @ number k \<in> set (availableServers st))
       else c = count \<and> nm' = nm)"
proof (induction st config count nm rule: addServerLoop.induct)
  case (1 st config count nm)
  show ?case
  proof (cases "nm \<in> set (availableServers st)")
    case False
    then show ?thesis
      by (subst addServerLoop.simps) (simp add: findServer_absent)
  next
    case True
    from findServer_present [OF True] obtain s where s: "findServer st nm = Inr (Some s)"
      by blast
    let ?next = "ServerName config @ ''_'' @ number (count + 1)"
    from "1.IH" [OF s refl] obtain c nm' where
      r: "addServerLoop st config (count + 1) ?next = Inr (c, nm')"
         "nm' \<notin> set (availableServers st)"
         "if ?next \<in> set (availableServers st)
          then count + 1 < c \<and> nm' = ServerName config @ ''_'' @ number c \<and>
            (\<forall>k. count + 1 < k \<and> k < c \<longrightarrow>
                 ServerName config @ ''_'' @ number k \<in> set (availableServers st))
          else c = count + 1 \<and> nm' = ?next"
      by blast
    have eq: "addServerLoop st config count nm = Inr (c, nm')"
      using s r(1) by (subst addServerLoop.simps) simp
    show ?thesis
    proof (cases "?next \<in> set (availableServers st)")
      case False
      with r have "c = count + 1" "nm' = ?next" by simp_all
      with eq r(2) True show ?thesis by auto
    next
      case nx: True
      with r have c: "count + 1 < c" "nm' = ServerName config @ ''_'' @ number c"
        and mid: "\<forall>k. count + 1 < k \<and> k < c \<longrightarrow>
                 ServerName config @ ''_'' @ number k \<in> set (availableServers st)"
        by simp_all
      have "\<forall>k. count < k \<and> k < c \<longrightarrow>
                 ServerName config @ ''_'' @ number k \<in> set (availableServers st)"
      proof (intro allI impI)
        fix k assume k: "count < k \<and> k < c"
        show "ServerName config @ ''_'' @ number k \<in> set (availableServers st)"
        proof (cases "k = count + 1")
          case True with nx show ?thesis by simp
        next
          case False
          with k have "count + 1 < k \<and> k < c" by simp
          with mid show ?thesis by blast
        qed
      qed
      with eq r(2) True c show ?thesis by auto
    qed
  qed
qed

lemma addServer_result:
  "\<exists>nm. resolved (ServerName config) (availableServers st) nm \<and>
     addServer env config st =
       Inr (\<lparr>addr = nextAddr st, configuration = config\<lparr>ServerName := nm\<rparr>\<rparr>,
            config\<lparr>ServerName := nm\<rparr>,
            save env (st\<lparr>nextAddr := Suc (nextAddr st),
                          s_servers := s_servers st @
                            [\<lparr>addr = nextAddr st, configuration = config\<lparr>ServerName := nm\<rparr>\<rparr>]\<rparr>))"
proof -
  from addServerLoop_spec [of st config 0 "ServerName config"] obtain c nm where
    r: "addServerLoop st config 0 (ServerName config) = Inr (c, nm)"
       "nm \<notin> set (availableServers st)"
       "if ServerName config \<in> set (availableServers st)
        then 0 < c \<and> nm = ServerName config @ ''_'' @ number c \<and>
            (\<forall>k. 0 < k \<and> k < c \<longrightarrow>
                 ServerName config @ ''_'' @ number k \<in> set (availableServers st))
        else c = 0 \<and> nm = ServerName config"
    by blast
  have "resolved (ServerName config) (availableServers st) nm"
  proof (cases "ServerName config \<in> set (availableServers st)")
    case False
    with r show ?thesis by (simp add: resolved_def)
  next
    case True
    with r have "1 \<le> c \<and> nm = ServerName config @ ''_'' @ number c \<and>
            (\<forall>k. 1 \<le> k \<and> k < c \<longrightarrow>
                 ServerName config @ ''_'' @ number k \<in> set (availableServers st))"
      by auto
    with True r(2) show ?thesis unfolding resolved_def by auto
  qed
  moreover have "addServer env config st =
       Inr (\<lparr>addr = nextAddr st, configuration = config\<lparr>ServerName := nm\<rparr>\<rparr>,
            config\<lparr>ServerName := nm\<rparr>,
            save env (st\<lparr>nextAddr := Suc (nextAddr st),
                          s_servers := s_servers st @
                            [\<lparr>addr = nextAddr st, configuration = config\<lparr>ServerName := nm\<rparr>\<rparr>]\<rparr>))"
    using r(1) by (simp add: addServer_def newServer_def Let_def del: addServerLoop.simps)
  ultimately show ?thesis by blast
qed

lemma removeName_absent:
  "n \<notin> set (availableServers st) \<Longrightarrow> removeName env n st = Inr (save env st)"
  by (simp add: removeName_def indexOf_absent)

lemma removeName_present:
  assumes "n \<in> set (availableServers st)"
  shows "\<exists>k. k < length (s_servers st) \<and> name (s_servers st ! k) = n \<and>
           (\<forall>j<k. name (s_servers st ! j) \<noteq> n) \<and>
           removeName env n st =
             Inr (save env (st\<lparr>s_servers := take k (s_servers st) @ drop (Suc k) (s_servers st),
                               s_deletedServers := s_deletedServers st @ [s_servers st ! k]\<rparr>))"
proof -
  from indexOf_present [OF assms] obtain k where
    k: "indexOf st n = Inr (int k)" "k < length (s_servers st)"
       "name (s_servers st ! k) = n" "\<forall>j<k. name (s_servers st ! j) \<noteq> n"
    by blast
  then have "removeName env n st =
             Inr (save env (st\<lparr>s_servers := take k (s_servers st) @ drop (Suc k) (s_servers st),
                               s_deletedServers := s_deletedServers st @ [s_servers st ! k]\<rparr>))"
    by (simp add: removeName_def QList_takeAt_def)
  with k show ?thesis by blast
qed

lemma QList_indexOf_absent:
  "addr p \<notin> addr ` set xs \<Longrightarrow> QList_indexOf xs p i = - 1"
  by (induction xs arbitrary: i) auto

lemma QList_indexOf_present:
  "addr p \<in> addr ` set xs \<Longrightarrow>
   \<exists>k<length xs. QList_indexOf xs p i = i + int k \<and> addr (xs ! k) = addr p"
proof (induction xs arbitrary: i)
  case Nil
  then show ?case by simp
next
  case (Cons x xs)
  show ?case
  proof (cases "addr x = addr p")
    case True
    then show ?thesis by auto
  next
    case False
    with Cons.prems have "addr p \<in> addr ` set xs" by auto
    from Cons.IH [OF this, of "i + 1"] obtain k where
      "k < length xs" "QList_indexOf xs p (i + 1) = i + 1 + int k" "addr (xs ! k) = addr p"
      by blast
    with False have "Suc k < length (x # xs) \<and>
      QList_indexOf (x # xs) p i = i + int (Suc k) \<and> addr ((x # xs) ! Suc k) = addr p"
      by simp
    then show ?thesis by blast
  qed
qed

lemma removeServer_absent:
  "addr p \<notin> addr ` set (s_servers st) \<Longrightarrow> removeServer env p st = Inr (save env st)"
  by (simp add: removeServer_def QList_indexOf_absent)

lemma removeServer_present:
  assumes "addr p \<in> addr ` set (s_servers st)"
  shows "\<exists>k. k < length (s_servers st) \<and> addr (s_servers st ! k) = addr p \<and>
           removeServer env p st =
             Inr (save env (st\<lparr>s_servers := take k (s_servers st) @ drop (Suc k) (s_servers st),
                               s_deletedServers := s_deletedServers st @ [s_servers st ! k]\<rparr>))"
proof -
  from QList_indexOf_present [OF assms, of 0] obtain k where
    k: "k < length (s_servers st)" "QList_indexOf (s_servers st) p 0 = int k"
       "addr (s_servers st ! k) = addr p"
    by auto
  then have "removeServer env p st =
             Inr (save env (st\<lparr>s_servers := take k (s_servers st) @ drop (Suc k) (s_servers st),
                               s_deletedServers := s_deletedServers st @ [s_servers st ! k]\<rparr>))"
    by (simp add: removeServer_def QList_takeAt_def)
  with k show ?thesis by blast
qed

lemma moveUp_absent:
  "n \<notin> set (availableServers st) \<Longrightarrow> moveUp env n st = Inr (save env st)"
  by (simp add: moveUp_def indexOf_absent)

lemma moveUp_present:
  assumes "n \<in> set (availableServers st)"
  shows "\<exists>k. k < length (s_servers st) \<and> name (s_servers st ! k) = n \<and>
           (\<forall>j<k. name (s_servers st ! j) \<noteq> n) \<and>
           moveUp env n st =
             Inr (save env (if 0 < k
                            then st\<lparr>s_servers := (s_servers st)
                                   [k := s_servers st ! (k - 1), k - 1 := s_servers st ! k]\<rparr>
                            else st))"
proof -
  from indexOf_present [OF assms] obtain k where
    k: "indexOf st n = Inr (int k)" "k < length (s_servers st)"
       "name (s_servers st ! k) = n" "\<forall>j<k. name (s_servers st ! j) \<noteq> n"
    by blast
  have "moveUp env n st =
             Inr (save env (if 0 < k
                            then st\<lparr>s_servers := (s_servers st)
                                   [k := s_servers st ! (k - 1), k - 1 := s_servers st ! k]\<rparr>
                            else st))"
  proof (cases "0 < k")
    case False
    with k show ?thesis by (simp add: moveUp_def)
  next
    case True
    then have "nat (int k - 1) = k - 1" by simp
    with True k show ?thesis by (simp add: moveUp_def QList_swap_def)
  qed
  with k show ?thesis by blast
qed

lemma moveDown_absent_empty:
  "s_servers st = [] \<Longrightarrow> moveDown env n st = Inr (save env st)"
  by (simp add: moveDown_def indexOf_absent availableServers_def)

lemma moveDown_absent_nonempty:
  "n \<notin> set (availableServers st) \<Longrightarrow> s_servers st \<noteq> [] \<Longrightarrow>
   moveDown env n st = Inl (Abort ''QList::swap: index out of range'')"
  by (simp add: moveDown_def indexOf_absent QList_swap_def)

lemma moveDown_present:
  assumes "n \<in> set (availableServers st)"
  shows "\<exists>k. k < length (s_servers st) \<and> name (s_servers st ! k) = n \<and>
           (\<forall>j<k. name (s_servers st ! j) \<noteq> n) \<and>
           moveDown env n st =
             Inr (save env (if Suc k < length (s_servers st)
                            then st\<lparr>s_servers := (s_servers st)
                                   [k := s_servers st ! Suc k, Suc k := s_servers st ! k]\<rparr>
                            else st))"
proof -
  from indexOf_present [OF assms] obtain k where
    k: "indexOf st n = Inr (int k)" "k < length (s_servers st)"
       "name (s_servers st ! k) = n" "\<forall>j<k. name (s_servers st ! j) \<noteq> n"
    by blast
  have "moveDown env n st =
             Inr (save env (if Suc k < length (s_servers st)
                            then st\<lparr>s_servers := (s_servers st)
                                   [k := s_servers st ! Suc k, Suc k := s_servers st ! k]\<rparr>
                            else st))"
  proof (cases "Suc k < length (s_servers st)")
    case False
    with k show ?thesis by (simp add: moveDown_def)
  next
    case True
    then have "nat (int k + 1) = Suc k" by simp
    moreover from True have "int k < int (length (s_servers st)) - 1" by simp
    ultimately show ?thesis using True k by (simp add: moveDown_def QList_swap_def)
  qed
  with k show ?thesis by blast
qed

lemma findServer_Some:
  assumes "findServer st m = Inr (Some p)"
  shows "p \<in> set (s_servers st) \<and> name p = m"
proof (cases "m \<in> set (availableServers st)")
  case False
  from findServer_absent [OF False] assms show ?thesis by simp
next
  case True
  from findServer_present [OF True] assms show ?thesis by auto
qed

lemma indexOf_Some:
  assumes "indexOf st m = Inr k" and "0 \<le> k"
  shows "nat k < length (s_servers st) \<and> name (s_servers st ! nat k) = m"
proof (cases "m \<in> set (availableServers st)")
  case False
  from indexOf_absent [OF False] assms show ?thesis by simp
next
  case True
  from indexOf_present [OF True] assms show ?thesis by auto
qed

lemma digit_inj:
  assumes "a < 10" "b < 10" "digit a = digit b"
  shows "a = b"
proof -
  have d: "distinct ''0123456789''" by simp
  have l: "length ''0123456789'' = 10" by simp
  from assms d l show ?thesis
    unfolding digit_def by (metis nth_eq_iff_index_eq)
qed

lemma numberNat_nonempty: "numberNat n \<noteq> []"
  by (subst numberNat.simps) simp

lemma numberNat_inj: "numberNat a = numberNat b \<Longrightarrow> a = b"
proof (induction a arbitrary: b rule: numberNat.induct)
  case (1 a)
  show ?case
  proof (cases "a < 10")
    case True
    then have a: "numberNat a = [digit a]" by (subst numberNat.simps) simp
    show ?thesis
    proof (cases "b < 10")
      case b: True
      then have "numberNat b = [digit b]" by (subst numberNat.simps) simp
      with a "1.prems" True b show ?thesis by (simp add: digit_inj)
    next
      case False
      then have "numberNat b = numberNat (b div 10) @ [digit (b mod 10)]"
        by (subst numberNat.simps) simp
      with a "1.prems" numberNat_nonempty [of "b div 10"] show ?thesis by simp
    qed
  next
    case False
    then have a: "numberNat a = numberNat (a div 10) @ [digit (a mod 10)]"
      by (subst numberNat.simps) simp
    show ?thesis
    proof (cases "b < 10")
      case True
      then have "numberNat b = [digit b]" by (subst numberNat.simps) simp
      with a "1.prems" numberNat_nonempty [of "a div 10"] show ?thesis by simp
    next
      case b: False
      then have "numberNat b = numberNat (b div 10) @ [digit (b mod 10)]"
        by (subst numberNat.simps) simp
      with a "1.prems" have eq: "numberNat (a div 10) = numberNat (b div 10)"
        "digit (a mod 10) = digit (b mod 10)"
        by simp_all
      from "1.IH" [OF False eq(1)] have "a div 10 = b div 10" .
      moreover from eq(2) have "a mod 10 = b mod 10"
        by (intro digit_inj) simp_all
      ultimately show ?thesis
        by (metis div_mult_mod_eq)
    qed
  qed
qed

lemma number_inj: "0 \<le> a \<Longrightarrow> 0 \<le> b \<Longrightarrow> number a = number b \<Longrightarrow> a = b"
  using numberNat_inj [of "nat a" "nat b"] by (simp add: number_def)

text \<open>
  The counter of the loop is an \<^verbatim>\<open>int\<close> in the source. It ends at most at the number
  of entries of the list, which a \<^verbatim>\<open>QList\<close> keeps within the range of \<^verbatim>\<open>int\<close>:
  the increment does not overflow.
\<close>

lemma addServerLoop_count_bound:
  assumes "addServerLoop st config 0 (ServerName config) = Inr (c, nm)"
  shows "0 \<le> c \<and> c \<le> int (length (s_servers st))"
proof (cases "ServerName config \<in> set (availableServers st)")
  case False
  with addServerLoop_spec [of st config 0 "ServerName config"] assms show ?thesis
    by auto
next
  case True
  let ?d = "ServerName config"
  let ?f = "\<lambda>k::int. ?d @ ''_'' @ number k"
  from True addServerLoop_spec [of st config 0 ?d] assms
  have pos: "0 < c" and mid: "\<forall>k. 0 < k \<and> k < c \<longrightarrow> ?f k \<in> set (availableServers st)"
    by auto
  have inj: "inj_on ?f {1..<c}"
  proof (rule inj_onI)
    fix x y assume "x \<in> {1..<c}" "y \<in> {1..<c}" "?f x = ?f y"
    then have "0 \<le> x" "0 \<le> y" "number x = number y" by simp_all
    then show "x = y" by (rule number_inj)
  qed
  have "?d \<notin> ?f ` {1..<c}"
    by auto
  moreover have "insert ?d (?f ` {1..<c}) \<subseteq> set (availableServers st)"
    using True mid by auto
  ultimately have "card (insert ?d (?f ` {1..<c})) \<le> card (set (availableServers st))"
    by (intro card_mono) simp_all
  moreover have "card (insert ?d (?f ` {1..<c})) = Suc (card {1..<c})"
    using \<open>?d \<notin> ?f ` {1..<c}\<close> inj by (simp add: card_image)
  moreover have "card (set (availableServers st)) \<le> length (s_servers st)"
    using card_length [of "availableServers st"] by (simp add: availableServers_def)
  ultimately have "Suc (card {1..<c}) \<le> length (s_servers st)"
    by simp
  with pos show ?thesis by simp
qed

section \<open>Invariants of the calls\<close>

lemma save_fields [simp]:
  "s_servers (save env st) = s_servers st"
  "s_deletedServers (save env st) = s_deletedServers st"
  "nextAddr (save env st) = nextAddr st"
  "s_instance (save env st) = s_instance st"
  "warnings (save env st) = warnings st"
  "qDebug (save env st) = qDebug st"
  "qLogError (save env st) = qLogError st"
  "ServerConfigurationList (save env st) =
     map (\<lambda>s. toQVariant env (configuration s)) (s_servers st)"
  by (simp_all add: save_def saveToPreferences_def)

lemma save_derived [simp]:
  "availableServers (save env st) = availableServers st"
  "persisted env (save env st)"
  "liveObjects (save env st) = liveObjects st"
  by (simp_all add: availableServers_def persisted_def liveObjects_def)

lemma distinct_map_swap:
  assumes "i < length xs" "j < length xs"
  shows "distinct (map f (xs[i := xs ! j, j := xs ! i])) = distinct (map f xs)"
proof -
  have a: "map f (xs[i := xs ! j, j := xs ! i]) =
      (map f xs)[i := map f xs ! j, j := map f xs ! i]"
    using assms by (simp add: map_update)
  have b: "distinct ((map f xs)[i := map f xs ! j, j := map f xs ! i]) = distinct (map f xs)"
    using assms by (intro distinct_swap) simp_all
  show ?thesis unfolding a b ..
qed

lemma taken_out:
  assumes "k < length xs"
  shows "\<exists>a x b. xs = a @ x # b \<and> take k xs = a \<and> drop (Suc k) xs = b \<and> xs ! k = x"
  using id_take_nth_drop [OF assms] by blast

lemma call_shape:
  assumes "call env c st = Inr st'"
  shows "(\<exists>cf. ServerName cf \<notin> set (availableServers st) \<and>
            st' = save env (st\<lparr>nextAddr := Suc (nextAddr st),
                               s_servers := s_servers st @ [\<lparr>addr = nextAddr st, configuration = cf\<rparr>]\<rparr>))
       \<or> (\<exists>k<length (s_servers st).
            st' = save env (st\<lparr>s_servers := take k (s_servers st) @ drop (Suc k) (s_servers st),
                               s_deletedServers := s_deletedServers st @ [s_servers st ! k]\<rparr>))
       \<or> (\<exists>i j. i < length (s_servers st) \<and> j < length (s_servers st) \<and>
            st' = save env (st\<lparr>s_servers :=
                     (s_servers st)[i := s_servers st ! j, j := s_servers st ! i]\<rparr>))
       \<or> st' = save env st"
proof (cases c)
  case (AddServer config)
  from addServer_result [of config st env] obtain nm where
    nm: "resolved (ServerName config) (availableServers st) nm"
    and r: "addServer env config st =
       Inr (\<lparr>addr = nextAddr st, configuration = config\<lparr>ServerName := nm\<rparr>\<rparr>,
            config\<lparr>ServerName := nm\<rparr>,
            save env (st\<lparr>nextAddr := Suc (nextAddr st),
                          s_servers := s_servers st @
                            [\<lparr>addr = nextAddr st, configuration = config\<lparr>ServerName := nm\<rparr>\<rparr>]\<rparr>))"
    by blast
  from nm have "ServerName (config\<lparr>ServerName := nm\<rparr>) \<notin> set (availableServers st)"
    by (simp add: resolved_def)
  moreover from assms AddServer r have
    "st' = save env (st\<lparr>nextAddr := Suc (nextAddr st),
                          s_servers := s_servers st @
                            [\<lparr>addr = nextAddr st, configuration = config\<lparr>ServerName := nm\<rparr>\<rparr>]\<rparr>)"
    by simp
  ultimately show ?thesis by blast
next
  case (RemoveName n)
  show ?thesis
  proof (cases "n \<in> set (availableServers st)")
    case False
    with assms RemoveName show ?thesis by (simp add: removeName_absent)
  next
    case True
    from removeName_present [OF True, of env] assms RemoveName show ?thesis
      by auto
  qed
next
  case (RemoveServer p)
  show ?thesis
  proof (cases "addr p \<in> addr ` set (s_servers st)")
    case False
    with assms RemoveServer show ?thesis by (simp add: removeServer_absent)
  next
    case True
    from removeServer_present [OF True, of env] assms RemoveServer show ?thesis
      by auto
  qed
next
  case (MoveUp n)
  show ?thesis
  proof (cases "n \<in> set (availableServers st)")
    case False
    with assms MoveUp show ?thesis by (simp add: moveUp_absent)
  next
    case True
    from moveUp_present [OF True, of env] obtain k where
      k: "k < length (s_servers st)"
         "moveUp env n st =
             Inr (save env (if 0 < k
                            then st\<lparr>s_servers := (s_servers st)
                                   [k := s_servers st ! (k - 1), k - 1 := s_servers st ! k]\<rparr>
                            else st))"
      by blast
    show ?thesis
    proof (cases "0 < k")
      case False
      with k assms MoveUp show ?thesis by simp
    next
      case True
      with k assms MoveUp have "k < length (s_servers st) \<and> k - 1 < length (s_servers st) \<and>
         st' = save env (st\<lparr>s_servers := (s_servers st)
                                   [k := s_servers st ! (k - 1), k - 1 := s_servers st ! k]\<rparr>)"
        by simp
      then show ?thesis by blast
    qed
  qed
next
  case (MoveDown n)
  show ?thesis
  proof (cases "n \<in> set (availableServers st)")
    case False
    show ?thesis
    proof (cases "s_servers st = []")
      case True
      with assms MoveDown show ?thesis by (simp add: moveDown_absent_empty)
    next
      case nonempty: False
      from moveDown_absent_nonempty [OF False nonempty, of env] assms MoveDown
      show ?thesis by simp
    qed
  next
    case True
    from moveDown_present [OF True, of env] obtain k where
      k: "k < length (s_servers st)"
         "moveDown env n st =
             Inr (save env (if Suc k < length (s_servers st)
                            then st\<lparr>s_servers := (s_servers st)
                                   [k := s_servers st ! Suc k, Suc k := s_servers st ! k]\<rparr>
                            else st))"
      by blast
    show ?thesis
    proof (cases "Suc k < length (s_servers st)")
      case False
      with k assms MoveDown show ?thesis by simp
    next
      case True
      with k assms MoveDown have "k < length (s_servers st) \<and> Suc k < length (s_servers st) \<and>
         st' = save env (st\<lparr>s_servers := (s_servers st)
                                   [k := s_servers st ! Suc k, Suc k := s_servers st ! k]\<rparr>)"
        by simp
      then show ?thesis by blast
    qed
  qed
qed

lemma call_persisted:
  assumes "call env c st = Inr st'"
  shows "persisted env st'"
  using call_shape [OF assms] by (elim disjE exE conjE) simp_all

lemma call_distinct_names:
  assumes "call env c st = Inr st'" and "distinct (availableServers st)"
  shows "distinct (availableServers st')"
  using call_shape [OF assms(1)]
proof (elim disjE exE conjE)
  fix cf
  assume "ServerName cf \<notin> set (availableServers st)"
    "st' = save env (st\<lparr>nextAddr := Suc (nextAddr st),
                               s_servers := s_servers st @ [\<lparr>addr = nextAddr st, configuration = cf\<rparr>]\<rparr>)"
  with assms(2) show ?thesis by (simp add: availableServers_def name_def)
next
  fix k
  assume k: "k < length (s_servers st)"
    and st': "st' = save env (st\<lparr>s_servers := take k (s_servers st) @ drop (Suc k) (s_servers st),
                               s_deletedServers := s_deletedServers st @ [s_servers st ! k]\<rparr>)"
  from taken_out [OF k] obtain a x b where
    ab: "s_servers st = a @ x # b" "take k (s_servers st) = a"
        "drop (Suc k) (s_servers st) = b"
    by blast
  from assms(2) have "distinct (map name (a @ x # b))"
    unfolding availableServers_def ab(1) .
  then have "distinct (map name (a @ b))" by simp
  with st' ab(2,3) show ?thesis by (simp add: availableServers_def)
next
  fix i j
  assume "i < length (s_servers st)" "j < length (s_servers st)"
    "st' = save env (st\<lparr>s_servers :=
                     (s_servers st)[i := s_servers st ! j, j := s_servers st ! i]\<rparr>)"
  with assms(2) show ?thesis
    by (simp add: availableServers_def distinct_map_swap)
next
  assume "st' = save env st"
  with assms(2) show ?thesis by simp
qed

lemma call_liveObjects:
  assumes "call env c st = Inr st'" and "liveObjects st"
  shows "liveObjects st'"
  using call_shape [OF assms(1)]
proof (elim disjE exE conjE)
  fix cf
  assume "st' = save env (st\<lparr>nextAddr := Suc (nextAddr st),
                               s_servers := s_servers st @ [\<lparr>addr = nextAddr st, configuration = cf\<rparr>]\<rparr>)"
  moreover from assms(2) have "\<forall>s \<in> set (s_servers st @ s_deletedServers st). addr s \<noteq> nextAddr st"
    unfolding liveObjects_def by fastforce
  ultimately show ?thesis using assms(2)
    unfolding liveObjects_def by (auto simp: less_Suc_eq)
next
  fix k
  assume k: "k < length (s_servers st)"
    and st': "st' = save env (st\<lparr>s_servers := take k (s_servers st) @ drop (Suc k) (s_servers st),
                               s_deletedServers := s_deletedServers st @ [s_servers st ! k]\<rparr>)"
  from taken_out [OF k] obtain a x b where
    ab: "s_servers st = a @ x # b" "take k (s_servers st) = a"
        "drop (Suc k) (s_servers st) = b" "s_servers st ! k = x"
    by blast
  from assms(2) have
    "distinct (map addr ((a @ x # b) @ s_deletedServers st)) \<and>
     (\<forall>s \<in> set ((a @ x # b) @ s_deletedServers st). addr s < nextAddr st)"
    unfolding liveObjects_def ab(1) .
  then have "distinct (map addr ((a @ b) @ s_deletedServers st @ [x])) \<and>
    (\<forall>s \<in> set ((a @ b) @ s_deletedServers st @ [x]). addr s < nextAddr st)"
    by auto
  with st' ab(2,3,4) show ?thesis by (simp add: liveObjects_def)
next
  fix i j
  assume ij: "i < length (s_servers st)" "j < length (s_servers st)"
    and st': "st' = save env (st\<lparr>s_servers :=
                     (s_servers st)[i := s_servers st ! j, j := s_servers st ! i]\<rparr>)"
  let ?xs = "(s_servers st)[i := s_servers st ! j, j := s_servers st ! i]"
  from ij have "set ?xs = set (s_servers st)" by simp
  moreover from ij have "distinct (map addr ?xs) = distinct (map addr (s_servers st))"
    by (rule distinct_map_swap)
  ultimately show ?thesis using assms(2) st'
    by (simp add: liveObjects_def)
next
  assume "st' = save env st"
  with assms(2) show ?thesis by simp
qed

lemma call_deleted_kept:
  assumes "call env c st = Inr st'"
  shows "set (s_deletedServers st) \<subseteq> set (s_deletedServers st')"
  using call_shape [OF assms] by (elim disjE exE conjE) auto

lemma calls_persisted:
  "calls env cs st = Inr st' \<Longrightarrow> persisted env st \<Longrightarrow> persisted env st'"
  by (induction cs arbitrary: st) (auto split: sum.splits dest: call_persisted)

lemma calls_distinct_names:
  "calls env cs st = Inr st' \<Longrightarrow> distinct (availableServers st) \<Longrightarrow> distinct (availableServers st')"
  by (induction cs arbitrary: st) (auto split: sum.splits dest: call_distinct_names)

lemma calls_liveObjects:
  "calls env cs st = Inr st' \<Longrightarrow> liveObjects st \<Longrightarrow> liveObjects st'"
  by (induction cs arbitrary: st) (auto split: sum.splits dest: call_liveObjects)

lemma calls_deleted_kept:
  "calls env cs st = Inr st' \<Longrightarrow> set (s_deletedServers st) \<subseteq> set (s_deletedServers st')"
proof (induction cs arbitrary: st)
  case Nil
  then show ?case by simp
next
  case (Cons c cs)
  then obtain st1 where 1: "call env c st = Inr st1" "calls env cs st1 = Inr st'"
    by (auto split: sum.splits)
  from call_deleted_kept [OF 1(1)] Cons.IH [OF 1(2)] show ?case by blast
qed

lemma liveObjects_new:
  assumes "liveObjects st"
  shows "liveObjects (st\<lparr>nextAddr := Suc (nextAddr st),
            s_servers := s_servers st @ [\<lparr>addr = nextAddr st, configuration = c\<rparr>]\<rparr>)"
proof -
  from assms have "\<forall>s \<in> set (s_servers st @ s_deletedServers st). addr s \<noteq> nextAddr st"
    unfolding liveObjects_def by fastforce
  with assms show ?thesis
    unfolding liveObjects_def by (auto simp: less_Suc_eq)
qed

lemma liveObjects_logs [simp]:
  "liveObjects (st\<lparr>qDebug := d\<rparr>) = liveObjects st"
  "liveObjects (st\<lparr>qLogError := l\<rparr>) = liveObjects st"
  "liveObjects (st\<lparr>warnings := w\<rparr>) = liveObjects st"
  "liveObjects (st\<lparr>s_instance := b\<rparr>) = liveObjects st"
  by (simp_all add: liveObjects_def)

lemma indexOf_first:
  assumes "i < length (s_servers st)"
    and "\<forall>j<i. name (s_servers st ! j) \<noteq> name (s_servers st ! i)"
  shows "indexOf st (name (s_servers st ! i)) = Inr (int i)"
proof -
  from assms(1) have "name (s_servers st ! i) \<in> set (availableServers st)"
    by (simp add: availableServers_def)
  from indexOf_present [OF this] obtain k where
    k: "indexOf st (name (s_servers st ! i)) = Inr (int k)" "k < length (s_servers st)"
       "name (s_servers st ! k) = name (s_servers st ! i)"
       "\<forall>j<k. name (s_servers st ! j) \<noteq> name (s_servers st ! i)"
    by blast
  from k(3) assms(2) have "\<not> k < i" by blast
  moreover from k(4) have "\<not> i < k" by blast
  ultimately have "k = i" by simp
  with k(1) show ?thesis by simp
qed

lemma move_first_bearer:
  assumes i: "i < length (s_servers st)"
    and first: "\<forall>j<i. name (s_servers st ! j) \<noteq> name (s_servers st ! i)"
  shows "moveUp env (name (s_servers st ! i)) st =
           Inr (save env (if 0 < i
                          then st\<lparr>s_servers := (s_servers st)
                                 [i := s_servers st ! (i - 1), i - 1 := s_servers st ! i]\<rparr>
                          else st))"
    and "moveDown env (name (s_servers st ! i)) st =
           Inr (save env (if Suc i < length (s_servers st)
                          then st\<lparr>s_servers := (s_servers st)
                                 [i := s_servers st ! Suc i, Suc i := s_servers st ! i]\<rparr>
                          else st))"
proof -
  note idx = indexOf_first [OF i first]
  show "moveUp env (name (s_servers st ! i)) st =
           Inr (save env (if 0 < i
                          then st\<lparr>s_servers := (s_servers st)
                                 [i := s_servers st ! (i - 1), i - 1 := s_servers st ! i]\<rparr>
                          else st))"
  proof (cases "0 < i")
    case False
    with idx show ?thesis by (simp add: moveUp_def)
  next
    case True
    then have "nat (int i - 1) = i - 1" by simp
    with True i idx show ?thesis by (simp add: moveUp_def QList_swap_def)
  qed
  show "moveDown env (name (s_servers st ! i)) st =
           Inr (save env (if Suc i < length (s_servers st)
                          then st\<lparr>s_servers := (s_servers st)
                                 [i := s_servers st ! Suc i, Suc i := s_servers st ! i]\<rparr>
                          else st))"
  proof (cases "Suc i < length (s_servers st)")
    case False
    with i idx show ?thesis by (simp add: moveDown_def)
  next
    case True
    have "nat (int i + 1) = Suc i" by simp
    moreover from True have "int i < int (length (s_servers st)) - 1" by simp
    ultimately show ?thesis using True i idx by (simp add: moveDown_def QList_swap_def)
  qed
qed

section \<open>The stages of bootstrap\<close>

lemma loadRecords_outcome:
  assumes "loadRecords env rs st = Inr st' \<or> loadRecords env rs st = Inl (e, st')"
  shows "s_deletedServers st' = s_deletedServers st \<and>
         ServerConfigurationList st' = ServerConfigurationList st \<and>
         s_instance st' = s_instance st \<and> warnings st' = warnings st \<and>
         qDebug st' = qDebug st \<and> qLogError st' = qLogError st \<and>
         (\<exists>ns rest. availableServers st' = availableServers st @ ns \<and>
                    recordNames env rs = ns @ rest)"
  using assms
proof (induction rs arbitrary: st)
  case Nil
  then show ?case by (simp add: recordNames_def)
next
  case (Cons r rs)
  show ?case
  proof (cases "fromQVariant env r")
    case (Inl what)
    with Cons.prems have "st' = st" by simp
    then show ?thesis by simp
  next
    case (Inr c)
    define st1 where "st1 = st\<lparr>nextAddr := Suc (nextAddr st),
        s_servers := s_servers st @ [\<lparr>addr = nextAddr st, configuration = c\<rparr>]\<rparr>"
    from Inr Cons.prems have
      "loadRecords env rs st1 = Inr st' \<or> loadRecords env rs st1 = Inl (e, st')"
      by (simp add: newServer_def st1_def)
    from Cons.IH [OF this] obtain ns rest where
      f: "s_deletedServers st' = s_deletedServers st1"
         "ServerConfigurationList st' = ServerConfigurationList st1"
         "s_instance st' = s_instance st1" "warnings st' = warnings st1"
         "qDebug st' = qDebug st1" "qLogError st' = qLogError st1"
      and n: "availableServers st' = availableServers st1 @ ns" "recordNames env rs = ns @ rest"
      by blast
    have "availableServers st1 = availableServers st @ [ServerName c]"
      by (simp add: st1_def availableServers_def name_def)
    with n Inr have "availableServers st' = availableServers st @ (ServerName c # ns)"
      "recordNames env (r # rs) = (ServerName c # ns) @ rest"
      by (simp_all add: recordNames_def)
    then have "\<exists>ns rest. availableServers st' = availableServers st @ ns \<and>
                    recordNames env (r # rs) = ns @ rest"
      by blast
    with f show ?thesis unfolding st1_def by simp
  qed
qed

lemma loadRecords_failure:
  "loadRecords env rs st = Inl (e, st') \<Longrightarrow> \<exists>what. e = Exception what"
  by (induction rs arbitrary: st) (auto simp: newServer_def split: sum.splits)

lemma loadRecords_length:
  "loadRecords env rs st = Inr st' \<Longrightarrow> length (s_servers st') = length (s_servers st) + length rs"
  by (induction rs arbitrary: st) (auto simp: newServer_def split: sum.splits)

lemma loadRecords_converted:
  assumes "\<forall>c \<in> set cs. fromQVariant env (toQVariant env c) = Inr c"
  shows "\<exists>st'. loadRecords env (map (toQVariant env) cs) st = Inr st' \<and>
           map configuration (s_servers st') = map configuration (s_servers st) @ cs"
  using assms
proof (induction cs arbitrary: st)
  case Nil
  then show ?case by simp
next
  case (Cons c cs)
  define st1 where "st1 = st\<lparr>nextAddr := Suc (nextAddr st),
        s_servers := s_servers st @ [\<lparr>addr = nextAddr st, configuration = c\<rparr>]\<rparr>"
  from Cons.prems have c: "fromQVariant env (toQVariant env c) = Inr c"
    and rest: "\<forall>c \<in> set cs. fromQVariant env (toQVariant env c) = Inr c"
    by simp_all
  from Cons.IH [OF rest, of st1] obtain st' where
    st': "loadRecords env (map (toQVariant env) cs) st1 = Inr st'"
         "map configuration (s_servers st') = map configuration (s_servers st1) @ cs"
    by blast
  from c st'(1) have "loadRecords env (map (toQVariant env) (c # cs)) st = Inr st'"
    by (simp add: newServer_def st1_def)
  moreover from st'(2) have
    "map configuration (s_servers st') = map configuration (s_servers st) @ c # cs"
    by (simp add: st1_def)
  ultimately show ?case by blast
qed

lemma loadFromFile_outcome:
  assumes "loadFromFile env p c0 st = Inr (ok, c, st') \<or> loadFromFile env p c0 st = Inl (e, st')"
  shows "\<exists>l. st' = st\<lparr>qLogError := l\<rparr>"
proof -
  have "\<exists>l. st = st\<lparr>qLogError := l\<rparr>"
    by (rule exI [of _ "qLogError st"]) simp
  with assms show ?thesis
    by (auto simp: loadFromFile_def Let_def QList_first_def
             split: if_splits list.splits option.splits sum.splits)
qed

lemma loadFromFile_importable:
  "importable env f \<longleftrightarrow>
     (\<exists>c st'. loadFromFile env (absoluteFilePath env f) c0 st = Inr (True, c, st'))"
  by (auto simp: importable_def loadFromFile_def Let_def QList_first_def
           split: list.splits option.splits sum.splits)

lemma loadFromFile_reportsFailure:
  "reportsFailure env f \<longleftrightarrow>
     (\<exists>st'. loadFromFile env (absoluteFilePath env f) c0 st = Inr (False, c0, st'))"
  by (auto simp: reportsFailure_def loadFromFile_def Let_def QList_first_def
           split: list.splits option.splits sum.splits)

lemma loadFiles_step:
  assumes "st1 = st\<lparr>qDebug := qDebug st @
                  [''Reading server configutation from: '' @ absoluteFilePath env f]\<rparr>"
  shows "loadFiles env (f # fs) st =
     (case loadFromFile env (absoluteFilePath env f) (defaultConfiguration env) st1 of
           Inl e \<Rightarrow> Inl e
         | Inr (ok, serverConfiguration, st2) \<Rightarrow>
             if ok
             then (case addServer env serverConfiguration st2 of
                     Inl e \<Rightarrow> Inl (e, st2)
                   | Inr (server, config, st3) \<Rightarrow> loadFiles env fs st3)
             else loadFiles env fs st2)"
  by (simp add: assms)

lemma loadFiles_outcome:
  assumes "loadFiles env fs st = Inr st' \<or> loadFiles env fs st = Inl (e, st')"
  shows "(distinct (availableServers st) \<longrightarrow> distinct (availableServers st')) \<and>
         length (s_servers st) \<le> length (s_servers st') \<and>
         (''Appending Q-Chem server'' \<in> set (qDebug st') \<longrightarrow>
            ''Appending Q-Chem server'' \<in> set (qDebug st)) \<and>
         warnings st' = warnings st \<and> s_instance st' = s_instance st \<and>
         s_deletedServers st' = s_deletedServers st"
  using assms
proof (induction fs arbitrary: st)
  case Nil
  then show ?case by simp
next
  case (Cons f fs)
  define st1 where "st1 = st\<lparr>qDebug := qDebug st @
                  [''Reading server configutation from: '' @ absoluteFilePath env f]\<rparr>"
  note step = loadFiles_step [OF st1_def, of fs]
  note prems = Cons.prems [unfolded step]
  show ?case
  proof (cases "loadFromFile env (absoluteFilePath env f) (defaultConfiguration env) st1")
    case (Inl a)
    obtain e1 st2 where a: "a = (e1, st2)" by (cases a)
    from Inl a prems have "st' = st2"
      by simp
    moreover from loadFromFile_outcome [of env _ _ st1 _ _ st2 e1] Inl a
    obtain l where "st2 = st1\<lparr>qLogError := l\<rparr>" by blast
    ultimately show ?thesis
      by (simp add: st1_def availableServers_def)
  next
    case (Inr b)
    obtain ok c st2 where b: "b = (ok, c, st2)" by (cases b)
    from loadFromFile_outcome [of env _ _ st1 ok c st2] Inr b
    obtain l where st2: "st2 = st1\<lparr>qLogError := l\<rparr>" by blast
    show ?thesis
    proof (cases ok)
      case False
      with Inr b prems have
        "loadFiles env fs st2 = Inr st' \<or> loadFiles env fs st2 = Inl (e, st')"
        by simp
      from Cons.IH [OF this] show ?thesis
        by (simp add: st2 st1_def availableServers_def)
    next
      case True
      from addServer_result [of c st2 env] obtain srv c' st3 where
        add: "addServer env c st2 = Inr (srv, c', st3)"
        and st3: "st3 = save env (st2\<lparr>nextAddr := Suc (nextAddr st2),
                          s_servers := s_servers st2 @ [srv]\<rparr>)"
        by blast
      from add have "call env (AddServer c) st2 = Inr st3" by simp
      note d = call_distinct_names [OF this]
      from True Inr b add prems have
        "loadFiles env fs st3 = Inr st' \<or> loadFiles env fs st3 = Inl (e, st')"
        by simp
      from Cons.IH [OF this] d show ?thesis
        by (simp add: st3 st2 st1_def availableServers_def)
    qed
  qed
qed

lemma loadFiles_nothing:
  assumes "\<forall>f \<in> set fs. reportsFailure env f"
  shows "\<exists>st'. loadFiles env fs st = Inr st' \<and> s_servers st' = s_servers st \<and>
           nextAddr st' = nextAddr st \<and> s_deletedServers st' = s_deletedServers st \<and>
           ServerConfigurationList st' = ServerConfigurationList st \<and>
           warnings st' = warnings st \<and> s_instance st' = s_instance st"
  using assms
proof (induction fs arbitrary: st)
  case Nil
  then show ?case by simp
next
  case (Cons f fs)
  define st1 where "st1 = st\<lparr>qDebug := qDebug st @
                  [''Reading server configutation from: '' @ absoluteFilePath env f]\<rparr>"
  from Cons.prems have "reportsFailure env f" by simp
  then obtain st2 where
    l: "loadFromFile env (absoluteFilePath env f) (defaultConfiguration env) st1 =
          Inr (False, defaultConfiguration env, st2)"
    using loadFromFile_reportsFailure [of env f "defaultConfiguration env" st1] by blast
  from loadFromFile_outcome [of env _ _ st1 False _ st2] l
  obtain lg where st2: "st2 = st1\<lparr>qLogError := lg\<rparr>" by blast
  from Cons.prems have "\<forall>f \<in> set fs. reportsFailure env f" by simp
  from Cons.IH [OF this, of st2] obtain st' where
    "loadFiles env fs st2 = Inr st'" "s_servers st' = s_servers st2"
    "nextAddr st' = nextAddr st2" "s_deletedServers st' = s_deletedServers st2"
    "ServerConfigurationList st' = ServerConfigurationList st2"
    "warnings st' = warnings st2" "s_instance st' = s_instance st2"
    by blast
  with l show ?case
    unfolding loadFiles_step [OF st1_def, of fs] by (simp add: st2 st1_def)
qed

lemma loadFiles_imported:
  assumes "f \<in> set fs" and "importable env f" and "loadFiles env fs st = Inr st'"
  shows "s_servers st' \<noteq> []"
  using assms
proof (induction fs arbitrary: st)
  case Nil
  then show ?case by simp
next
  case (Cons g fs)
  define st1 where "st1 = st\<lparr>qDebug := qDebug st @
                  [''Reading server configutation from: '' @ absoluteFilePath env g]\<rparr>"
  note run = Cons.prems(3) [unfolded loadFiles_step [OF st1_def, of fs]]
  from run obtain ok c st2 where
    l: "loadFromFile env (absoluteFilePath env g) (defaultConfiguration env) st1 = Inr (ok, c, st2)"
    by (auto split: sum.splits)
  show ?case
  proof (cases ok)
    case True
    from addServer_result [of c st2 env] obtain srv c' st3 where
      add: "addServer env c st2 = Inr (srv, c', st3)"
      and st3: "st3 = save env (st2\<lparr>nextAddr := Suc (nextAddr st2),
                          s_servers := s_servers st2 @ [srv]\<rparr>)"
      by blast
    from True l add run have "loadFiles env fs st3 = Inr st'"
      by simp
    with loadFiles_outcome [of env fs st3 st'] have "length (s_servers st3) \<le> length (s_servers st')"
      by blast
    with st3 show ?thesis by auto
  next
    case False
    with l run have run: "loadFiles env fs st2 = Inr st'"
      by simp
    from False l loadFromFile_importable [of env g "defaultConfiguration env" st1]
    have "\<not> importable env g" by simp
    with Cons.prems(1,2) have "f \<in> set fs" by auto
    from Cons.IH [OF this Cons.prems(2) run] show ?thesis .
  qed
qed

lemma loadRecords_cong:
  "fromQVariant env' = fromQVariant env \<Longrightarrow> loadRecords env' rs st = loadRecords env rs st"
  by (induction rs arbitrary: st) (simp_all split: sum.splits)

lemma try_empty_store:
  assumes "ServerConfigurationList st = []" and "s_servers st = []"
    and "st2 = st\<lparr>qDebug := qDebug st @ [''Server Directory set to: '' @ ServerDirectory env]\<rparr>"
  shows "loadFromPreferences_try env st =
     (case (if dirExists env then loadFiles env (entryList env) st2 else Inr st2) of
        Inl e \<Rightarrow> Inl e
      | Inr st3 \<Rightarrow>
          if s_servers st3 = []
          then Inr (st3\<lparr>qDebug := qDebug st3 @ [''Appending Q-Chem server''],
                       nextAddr := Suc (nextAddr st3),
                       s_servers := s_servers st3 @
                         [\<lparr>addr = nextAddr st3, configuration = defaultConfiguration env\<rparr>]\<rparr>)
          else Inr st3)"
proof -
  have records: "loadRecords env (ServerConfigurationList st) st = Inr st"
    by (simp add: assms(1))
  show ?thesis
    unfolding loadFromPreferences_try_def records
    by (simp add: assms(2,3) Let_def newServer_def split: sum.splits)
qed

lemma try_nonempty_store:
  assumes "ServerConfigurationList st \<noteq> []"
  shows "loadFromPreferences_try env st = loadRecords env (ServerConfigurationList st) st"
proof (cases "loadRecords env (ServerConfigurationList st) st")
  case (Inl a)
  then show ?thesis by (simp add: loadFromPreferences_try_def)
next
  case (Inr st1)
  from loadRecords_length [OF Inr] assms have "s_servers st1 \<noteq> []" by auto
  with Inr show ?thesis by (simp add: loadFromPreferences_try_def)
qed

lemma bootstrap_store_first:
  assumes ne: "ServerConfigurationList st \<noteq> []"
  shows "\<exists>st'. loadFromPreferences env st = Inr st' \<and>
             qDebug st' = qDebug st \<and> qLogError st' = qLogError st"
proof (cases "loadRecords env (ServerConfigurationList st) st")
  case (Inr st1)
  from loadRecords_outcome [of env "ServerConfigurationList st" st st1] Inr
  have "qDebug st1 = qDebug st \<and> qLogError st1 = qLogError st" by blast
  moreover from Inr have "loadFromPreferences env st = Inr st1"
    by (simp add: loadFromPreferences_def try_nonempty_store [OF ne])
  ultimately show ?thesis by blast
next
  case (Inl a)
  obtain e st1 where a: "a = (e, st1)" by (cases a)
  from loadRecords_failure [of env _ st e st1] Inl a obtain what where e: "e = Exception what"
    by blast
  from loadRecords_outcome [of env "ServerConfigurationList st" st st1 e] Inl a
  have "qDebug st1 = qDebug st \<and> qLogError st1 = qLogError st" by blast
  moreover from Inl a e have "loadFromPreferences env st =
      Inr (st1\<lparr>warnings := warnings st1 @
                 [''Problem loading servers from Preferences file:'' @ [CHR 0x0A] @ what]\<rparr>)"
    by (simp add: loadFromPreferences_def try_nonempty_store [OF ne])
  ultimately show ?thesis by simp
qed

lemma bootstrap_store_only:
  assumes "ServerConfigurationList st \<noteq> []" and "fromQVariant env' = fromQVariant env"
  shows "loadFromPreferences env' st = loadFromPreferences env st"
proof -
  from assms(2) have "loadRecords env' (ServerConfigurationList st) st =
      loadRecords env (ServerConfigurationList st) st"
    by (rule loadRecords_cong)
  then show ?thesis
    unfolding loadFromPreferences_def try_nonempty_store [OF assms(1)] by simp
qed

lemma bootstrap_files_second:
  assumes store: "ServerConfigurationList st = []" and active: "s_servers st = []"
    and dir: "dirExists env" and f: "f \<in> set (entryList env)" "importable env f"
    and log: "''Appending Q-Chem server'' \<notin> set (qDebug st)"
    and r: "loadFromPreferences env st = Inr st'"
  shows "''Appending Q-Chem server'' \<notin> set (qDebug st') \<and>
         (warnings st' = warnings st \<longrightarrow> s_servers st' \<noteq> [])"
proof -
  define st2 where
    "st2 = st\<lparr>qDebug := qDebug st @ [''Server Directory set to: '' @ ServerDirectory env]\<rparr>"
  have t: "loadFromPreferences_try env st =
     (case loadFiles env (entryList env) st2 of
        Inl e \<Rightarrow> Inl e
      | Inr st3 \<Rightarrow>
          if s_servers st3 = []
          then Inr (st3\<lparr>qDebug := qDebug st3 @ [''Appending Q-Chem server''],
                       nextAddr := Suc (nextAddr st3),
                       s_servers := s_servers st3 @
                         [\<lparr>addr = nextAddr st3, configuration = defaultConfiguration env\<rparr>]\<rparr>)
          else Inr st3)"
    unfolding try_empty_store [OF store active st2_def] using dir by simp
  from log have q2: "''Appending Q-Chem server'' \<notin> set (qDebug st2)"
    by (simp add: st2_def)
  have w2: "warnings st2 = warnings st" by (simp add: st2_def)
  show ?thesis
  proof (cases "loadFiles env (entryList env) st2")
    case (Inr st3)
    from loadFiles_imported [OF f Inr] have ne: "s_servers st3 \<noteq> []" .
    from Inr ne have "loadFromPreferences_try env st = Inr st3"
      unfolding t by simp
    with r have "st' = st3" by (simp add: loadFromPreferences_def)
    moreover from loadFiles_outcome [of env "entryList env" st2 st3] Inr
    have "''Appending Q-Chem server'' \<in> set (qDebug st3) \<longrightarrow>
            ''Appending Q-Chem server'' \<in> set (qDebug st2)"
      by blast
    ultimately show ?thesis using q2 ne by blast
  next
    case (Inl b)
    obtain e st3 where b: "b = (e, st3)" by (cases b)
    from Inl b have t': "loadFromPreferences_try env st = Inl (e, st3)"
      unfolding t by simp
    from loadFiles_outcome [of env "entryList env" st2 st3 e] Inl b
    have o: "''Appending Q-Chem server'' \<in> set (qDebug st3) \<longrightarrow>
            ''Appending Q-Chem server'' \<in> set (qDebug st2)"
         "warnings st3 = warnings st2"
      by blast+
    show ?thesis
    proof (cases e)
      case (Abort what)
      with t' r show ?thesis by (simp add: loadFromPreferences_def)
    next
      case (Exception what)
      with t' r have st': "st' = st3\<lparr>warnings := warnings st3 @
                 [''Problem loading servers from Preferences file:'' @ [CHR 0x0A] @ what]\<rparr>"
        by (simp add: loadFromPreferences_def)
      then have "qDebug st' = qDebug st3" "warnings st' \<noteq> warnings st"
        using o(2) w2 by simp_all
      with o(1) q2 show ?thesis by simp
    qed
  qed
qed

lemma bootstrap_default_last:
  assumes store: "ServerConfigurationList st = []" and active: "s_servers st = []"
    and empty: "dirExists env \<longrightarrow> (\<forall>f \<in> set (entryList env). reportsFailure env f)"
  shows "\<exists>st'. loadFromPreferences env st = Inr st' \<and>
           s_servers st' = [\<lparr>addr = nextAddr st, configuration = defaultConfiguration env\<rparr>]"
proof -
  define st2 where
    "st2 = st\<lparr>qDebug := qDebug st @ [''Server Directory set to: '' @ ServerDirectory env]\<rparr>"
  have "\<exists>st3. (if dirExists env then loadFiles env (entryList env) st2 else Inr st2) = Inr st3 \<and>
           s_servers st3 = [] \<and> nextAddr st3 = nextAddr st"
  proof (cases "dirExists env")
    case False
    with active show ?thesis by (simp add: st2_def)
  next
    case True
    with empty have "\<forall>f \<in> set (entryList env). reportsFailure env f" by simp
    from loadFiles_nothing [OF this, of st2] obtain st3 where
      "loadFiles env (entryList env) st2 = Inr st3" "s_servers st3 = s_servers st2"
      "nextAddr st3 = nextAddr st2"
      by blast
    with True active show ?thesis by (simp add: st2_def)
  qed
  then obtain st3 where 3:
    "(if dirExists env then loadFiles env (entryList env) st2 else Inr st2) = Inr st3"
    "s_servers st3 = []" "nextAddr st3 = nextAddr st"
    by blast
  have "loadFromPreferences_try env st =
      Inr (st3\<lparr>qDebug := qDebug st3 @ [''Appending Q-Chem server''],
                       nextAddr := Suc (nextAddr st3),
                       s_servers := s_servers st3 @
                         [\<lparr>addr = nextAddr st3, configuration = defaultConfiguration env\<rparr>]\<rparr>)"
    unfolding try_empty_store [OF store active st2_def] 3(1) using 3(2) by simp
  then show ?thesis using 3(2,3)
    by (simp add: loadFromPreferences_def)
qed

text \<open>What \<^verbatim>\<open>loadFromFile\<close> does on the other inputs.\<close>

lemma loadFromFile_unreadable:
  "\<not> fileOpens env p \<Longrightarrow>
   loadFromFile env p c st =
     Inr (False, c, st\<lparr>qLogError := qLogError st @
                        [''Server configuraiton file does not exist'' @ p]\<rparr>)"
  by (simp add: loadFromFile_def)

lemma loadFromFile_success:
  "loadFromFile env p c st = Inr (True, c', st') \<longleftrightarrow>
     fileOpens env p \<and>
     (\<exists>node rest. parserYaml env p = Some node # rest \<and> fromYamlNode env node = Inr c') \<and>
     st' = (if parserErrors env p \<noteq> []
            then st\<lparr>qLogError := qLogError st @ [QStringList_join (parserErrors env p) [CHR 0x0A]]\<rparr>
            else st)"
  by (auto simp: loadFromFile_def Let_def QList_first_def
           split: list.splits option.splits sum.splits)

text \<open>Bootstrap when the constructor throws for the first stored record.\<close>

lemma bootstrap_first_record_fails:
  assumes "fromQVariant env r = Inl what"
  shows "bootstrap env (r # rs) =
     Inr ((processStart (r # rs))
           \<lparr>s_instance := True,
            warnings := [''Problem loading servers from Preferences file:'' @ [CHR 0x0A] @ what]\<rparr>)"
  using assms
  by (simp add: bootstrap_def instanceRegistry_def loadFromPreferences_def
        loadFromPreferences_try_def processStart_def)

lemma loadFromPreferences_distinct:
  assumes names: "distinct (recordNames env (ServerConfigurationList st))"
    and active: "s_servers st = []"
    and r: "loadFromPreferences env st = Inr st'"
  shows "distinct (availableServers st')"
proof (cases "loadRecords env (ServerConfigurationList st) st")
  case (Inl a)
  obtain e st1 where a: "a = (e, st1)" by (cases a)
  from loadRecords_outcome [of env "ServerConfigurationList st" st st1 e] Inl a
  obtain ns rest where "availableServers st1 = availableServers st @ ns"
    "recordNames env (ServerConfigurationList st) = ns @ rest"
    by blast
  with names active have d: "distinct (availableServers st1)"
    by (simp add: availableServers_def)
  from Inl a have t: "loadFromPreferences_try env st = Inl (e, st1)"
    by (simp add: loadFromPreferences_try_def)
  show ?thesis
  proof (cases e)
    case (Abort what)
    with t r show ?thesis by (simp add: loadFromPreferences_def)
  next
    case (Exception what)
    with t r have "availableServers st' = availableServers st1"
      by (auto simp: loadFromPreferences_def availableServers_def)
    with d show ?thesis by simp
  qed
next
  case (Inr st1)
  from loadRecords_outcome [of env "ServerConfigurationList st" st st1] Inr
  obtain ns rest where "availableServers st1 = availableServers st @ ns"
    "recordNames env (ServerConfigurationList st) = ns @ rest"
    by blast
  with names active have d1: "distinct (availableServers st1)"
    by (simp add: availableServers_def)
  define st2 where
    "st2 = st1\<lparr>qDebug := qDebug st1 @ [''Server Directory set to: '' @ ServerDirectory env]\<rparr>"
  have d2: "distinct (availableServers st2)"
    using d1 by (simp add: st2_def availableServers_def)
  define second where "second =
     (if s_servers st1 = []
      then (if dirExists env then loadFiles env (entryList env) st2 else Inr st2)
      else Inr st1)"
  have t: "loadFromPreferences_try env st =
     (case second of
        Inl e \<Rightarrow> Inl e
      | Inr st3 \<Rightarrow>
          if s_servers st3 = []
          then Inr (st3\<lparr>qDebug := qDebug st3 @ [''Appending Q-Chem server''],
                       nextAddr := Suc (nextAddr st3),
                       s_servers := s_servers st3 @
                         [\<lparr>addr = nextAddr st3, configuration = defaultConfiguration env\<rparr>]\<rparr>)
          else Inr st3)"
    unfolding loadFromPreferences_try_def Inr second_def st2_def
    by (simp add: Let_def newServer_def split: sum.splits)
  have stage: "distinct (availableServers st3)"
    if "second = Inr st3 \<or> second = Inl (e, st3)" for e st3
  proof (cases "s_servers st1 = [] \<and> dirExists env")
    case True
    with that have "loadFiles env (entryList env) st2 = Inr st3 \<or>
        loadFiles env (entryList env) st2 = Inl (e, st3)"
      by (simp add: second_def)
    from loadFiles_outcome [OF this] d2 show ?thesis by blast
  next
    case False
    with that have "st3 = st2 \<or> st3 = st1"
      by (auto simp: second_def split: if_splits)
    with d1 d2 show ?thesis by blast
  qed
  show ?thesis
  proof (cases second)
    case (Inl b)
    obtain e st3 where b: "b = (e, st3)" by (cases b)
    from stage [of st3 e] Inl b have d3: "distinct (availableServers st3)" by simp
    from Inl b have t': "loadFromPreferences_try env st = Inl (e, st3)"
      unfolding t by simp
    show ?thesis
    proof (cases e)
      case (Abort what)
      with t' r show ?thesis by (simp add: loadFromPreferences_def)
    next
      case (Exception what)
      with t' r have "availableServers st' = availableServers st3"
        by (auto simp: loadFromPreferences_def availableServers_def)
      with d3 show ?thesis by simp
    qed
  next
    case (Inr st3)
    from stage [of st3] Inr have d3: "distinct (availableServers st3)" by simp
    show ?thesis
    proof (cases "s_servers st3 = []")
      case False
      with Inr have "loadFromPreferences_try env st = Inr st3"
        unfolding t by simp
      with r have "st' = st3" by (simp add: loadFromPreferences_def)
      with d3 show ?thesis by simp
    next
      case True
      with Inr have "loadFromPreferences_try env st =
          Inr (st3\<lparr>qDebug := qDebug st3 @ [''Appending Q-Chem server''],
                       nextAddr := Suc (nextAddr st3),
                       s_servers := s_servers st3 @
                         [\<lparr>addr = nextAddr st3, configuration = defaultConfiguration env\<rparr>]\<rparr>)"
        unfolding t by simp
      with r True have "length (availableServers st') = 1"
        by (auto simp: loadFromPreferences_def availableServers_def)
      then show ?thesis
        by (cases "availableServers st'") simp_all
    qed
  qed
qed

lemma loadRecords_liveObjects:
  assumes "loadRecords env rs st = Inr st' \<or> loadRecords env rs st = Inl (e, st')"
    and "liveObjects st"
  shows "liveObjects st'"
  using assms
proof (induction rs arbitrary: st)
  case Nil
  then show ?case by auto
next
  case (Cons r rs)
  show ?case
  proof (cases "fromQVariant env r")
    case (Inl what)
    with Cons.prems show ?thesis by simp
  next
    case (Inr c)
    define st1 where "st1 = st\<lparr>nextAddr := Suc (nextAddr st),
        s_servers := s_servers st @ [\<lparr>addr = nextAddr st, configuration = c\<rparr>]\<rparr>"
    from Inr Cons.prems(1) have
      "loadRecords env rs st1 = Inr st' \<or> loadRecords env rs st1 = Inl (e, st')"
      by (simp add: newServer_def st1_def)
    moreover from Cons.prems(2) have "liveObjects st1"
      unfolding st1_def by (rule liveObjects_new)
    ultimately show ?thesis by (rule Cons.IH)
  qed
qed

lemma loadFiles_liveObjects:
  assumes "loadFiles env fs st = Inr st' \<or> loadFiles env fs st = Inl (e, st')"
    and "liveObjects st"
  shows "liveObjects st'"
  using assms
proof (induction fs arbitrary: st)
  case Nil
  then show ?case by auto
next
  case (Cons f fs)
  define st1 where "st1 = st\<lparr>qDebug := qDebug st @
                  [''Reading server configutation from: '' @ absoluteFilePath env f]\<rparr>"
  note prems = Cons.prems(1) [unfolded loadFiles_step [OF st1_def, of fs]]
  from Cons.prems(2) have l1: "liveObjects st1" by (simp add: st1_def)
  show ?case
  proof (cases "loadFromFile env (absoluteFilePath env f) (defaultConfiguration env) st1")
    case (Inl a)
    obtain e1 st2 where a: "a = (e1, st2)" by (cases a)
    from Inl a prems have "st' = st2" by simp
    moreover from loadFromFile_outcome [of env _ _ st1 _ _ st2 e1] Inl a
    obtain l where "st2 = st1\<lparr>qLogError := l\<rparr>" by blast
    ultimately show ?thesis using l1 by simp
  next
    case (Inr b)
    obtain ok c st2 where b: "b = (ok, c, st2)" by (cases b)
    from loadFromFile_outcome [of env _ _ st1 ok c st2] Inr b
    obtain l where st2: "st2 = st1\<lparr>qLogError := l\<rparr>" by blast
    with l1 have l2: "liveObjects st2" by simp
    show ?thesis
    proof (cases ok)
      case False
      with Inr b prems have
        "loadFiles env fs st2 = Inr st' \<or> loadFiles env fs st2 = Inl (e, st')"
        by simp
      from Cons.IH [OF this l2] show ?thesis .
    next
      case True
      from addServer_result [of c st2 env] obtain srv c' st3 where
        add: "addServer env c st2 = Inr (srv, c', st3)"
        by blast
      then have "call env (AddServer c) st2 = Inr st3" by simp
      from call_liveObjects [OF this l2] have l3: "liveObjects st3" .
      from True Inr b add prems have
        "loadFiles env fs st3 = Inr st' \<or> loadFiles env fs st3 = Inl (e, st')"
        by simp
      from Cons.IH [OF this l3] show ?thesis .
    qed
  qed
qed

lemma loadFromPreferences_liveObjects:
  assumes live: "liveObjects st" and r: "loadFromPreferences env st = Inr st'"
  shows "liveObjects st'"
proof (cases "loadRecords env (ServerConfigurationList st) st")
  case (Inl a)
  obtain e st1 where a: "a = (e, st1)" by (cases a)
  from loadRecords_liveObjects [of env "ServerConfigurationList st" st st1 e] Inl a live
  have l1: "liveObjects st1"
    by simp
  from Inl a have t: "loadFromPreferences_try env st = Inl (e, st1)"
    by (simp add: loadFromPreferences_try_def)
  show ?thesis
  proof (cases e)
    case (Abort what)
    with t r show ?thesis by (simp add: loadFromPreferences_def)
  next
    case (Exception what)
    with t r l1 show ?thesis by (auto simp: loadFromPreferences_def)
  qed
next
  case (Inr st1)
  from loadRecords_liveObjects [of env "ServerConfigurationList st" st st1] Inr live
  have l1: "liveObjects st1"
    by simp
  define st2 where
    "st2 = st1\<lparr>qDebug := qDebug st1 @ [''Server Directory set to: '' @ ServerDirectory env]\<rparr>"
  have l2: "liveObjects st2"
    using l1 by (simp add: st2_def)
  define second where "second =
     (if s_servers st1 = []
      then (if dirExists env then loadFiles env (entryList env) st2 else Inr st2)
      else Inr st1)"
  have t: "loadFromPreferences_try env st =
     (case second of
        Inl e \<Rightarrow> Inl e
      | Inr st3 \<Rightarrow>
          if s_servers st3 = []
          then Inr (st3\<lparr>qDebug := qDebug st3 @ [''Appending Q-Chem server''],
                       nextAddr := Suc (nextAddr st3),
                       s_servers := s_servers st3 @
                         [\<lparr>addr = nextAddr st3, configuration = defaultConfiguration env\<rparr>]\<rparr>)
          else Inr st3)"
    unfolding loadFromPreferences_try_def Inr second_def st2_def
    by (simp add: Let_def newServer_def split: sum.splits)
  have stage: "liveObjects st3"
    if "second = Inr st3 \<or> second = Inl (e, st3)" for e st3
  proof (cases "s_servers st1 = [] \<and> dirExists env")
    case True
    with that have "loadFiles env (entryList env) st2 = Inr st3 \<or>
        loadFiles env (entryList env) st2 = Inl (e, st3)"
      by (simp add: second_def)
    from loadFiles_liveObjects [OF this l2] show ?thesis .
  next
    case False
    with that have "st3 = st2 \<or> st3 = st1"
      by (auto simp: second_def split: if_splits)
    with l1 l2 show ?thesis by blast
  qed
  show ?thesis
  proof (cases second)
    case (Inl b)
    obtain e st3 where b: "b = (e, st3)" by (cases b)
    from stage [of st3 e] Inl b have l3: "liveObjects st3" by simp
    from Inl b have t': "loadFromPreferences_try env st = Inl (e, st3)"
      unfolding t by simp
    show ?thesis
    proof (cases e)
      case (Abort what)
      with t' r show ?thesis by (simp add: loadFromPreferences_def)
    next
      case (Exception what)
      with t' r l3 show ?thesis by (auto simp: loadFromPreferences_def)
    qed
  next
    case (Inr st3)
    from stage [of st3] Inr have l3: "liveObjects st3" by simp
    show ?thesis
    proof (cases "s_servers st3 = []")
      case False
      with Inr have "loadFromPreferences_try env st = Inr st3"
        unfolding t by simp
      with r l3 show ?thesis by (simp add: loadFromPreferences_def)
    next
      case True
      with Inr have "loadFromPreferences_try env st =
          Inr (st3\<lparr>qDebug := qDebug st3 @ [''Appending Q-Chem server''],
                       nextAddr := Suc (nextAddr st3),
                       s_servers := s_servers st3 @
                         [\<lparr>addr = nextAddr st3, configuration = defaultConfiguration env\<rparr>]\<rparr>)"
        unfolding t by simp
      with r have "st' = (st3\<lparr>nextAddr := Suc (nextAddr st3),
                       s_servers := s_servers st3 @
                         [\<lparr>addr = nextAddr st3, configuration = defaultConfiguration env\<rparr>]\<rparr>)
                     \<lparr>qDebug := qDebug st3 @ [''Appending Q-Chem server'']\<rparr>"
        by (auto simp: loadFromPreferences_def)
      with liveObjects_new [OF l3, of "defaultConfiguration env"] show ?thesis
        by simp
    qed
  qed
qed

text \<open>
  Every state that a process reaches by bootstrap and calls that return keeps its live
  objects at different addresses.
\<close>

lemma reachable_liveObjects:
  assumes "bootstrap env stored = Inr st" and "calls env cs st = Inr st'"
  shows "liveObjects st'"
proof -
  have "liveObjects ((processStart stored)\<lparr>s_instance := True\<rparr>)"
    by (simp add: liveObjects_def processStart_def)
  moreover from assms(1) have
    "loadFromPreferences env ((processStart stored)\<lparr>s_instance := True\<rparr>) = Inr st"
    by (simp add: bootstrap_def instanceRegistry_def processStart_def)
  ultimately have "liveObjects st" by (rule loadFromPreferences_liveObjects)
  with assms(2) show ?thesis by (rule calls_liveObjects)
qed

text \<open>
  With an empty store, an empty active list and an importable file in the listing of an
  existing directory, the body of the \<^verbatim>\<open>try\<close> block ends as the loop over the listing
  ends: nothing is appended after it.
\<close>

lemma bootstrap_files_only:
  assumes store: "ServerConfigurationList st = []" and active: "s_servers st = []"
    and dir: "dirExists env" and f: "f \<in> set (entryList env)" "importable env f"
  shows "loadFromPreferences_try env st =
           loadFiles env (entryList env)
             (st\<lparr>qDebug := qDebug st @ [''Server Directory set to: '' @ ServerDirectory env]\<rparr>)"
proof -
  define st2 where
    "st2 = st\<lparr>qDebug := qDebug st @ [''Server Directory set to: '' @ ServerDirectory env]\<rparr>"
  have t: "loadFromPreferences_try env st =
     (case loadFiles env (entryList env) st2 of
        Inl e \<Rightarrow> Inl e
      | Inr st3 \<Rightarrow>
          if s_servers st3 = []
          then Inr (st3\<lparr>qDebug := qDebug st3 @ [''Appending Q-Chem server''],
                       nextAddr := Suc (nextAddr st3),
                       s_servers := s_servers st3 @
                         [\<lparr>addr = nextAddr st3, configuration = defaultConfiguration env\<rparr>]\<rparr>)
          else Inr st3)"
    unfolding try_empty_store [OF store active st2_def] using dir by simp
  have "loadFromPreferences_try env st = loadFiles env (entryList env) st2"
  proof (cases "loadFiles env (entryList env) st2")
    case (Inl e)
    then show ?thesis unfolding t by simp
  next
    case (Inr st3)
    from loadFiles_imported [OF f Inr] have "s_servers st3 \<noteq> []" .
    with Inr show ?thesis unfolding t by simp
  qed
  then show ?thesis unfolding st2_def .
qed

section \<open>Sequences of addServer calls\<close>

text \<open>
  C1. The claim, as stated, lets the first entry with a given display name keep that name.
  Collisions are looked up among the names already given, suffixed ones included: after
  two calls with display name \<open>a\<close> the names are \<open>a\<close> and \<open>a_1\<close>, and the first call with
  display name \<open>a_1\<close> gets \<open>a_1_1\<close>.
\<close>

theorem addServer_first_of_name_counterexample:
  "namesAfter exampleEnv [AddServer (cfg ''a''), AddServer (cfg ''a''), AddServer (cfg ''a_1'')]
     (processStart []) = Inr [''a'', ''a_1'', ''a_1_1''] \<and>
   \<not> firstKeepsName [''a'', ''a'', ''a_1''] [''a'', ''a_1'', ''a_1_1'']"
proof -
  have "namesAfter exampleEnv [AddServer (cfg ''a''), AddServer (cfg ''a''), AddServer (cfg ''a_1'')]
     (processStart []) = Inr [''a'', ''a_1'', ''a_1_1'']"
    by code_simp
  moreover have "\<not> firstKeepsName [''a'', ''a'', ''a_1''] [''a'', ''a_1'', ''a_1_1'']"
    unfolding firstKeepsName_def by (intro notI, drule spec [of _ 2]) simp
  ultimately show ?thesis by blast
qed

text \<open>
  C1, amended. For every sequence of \<^verbatim>\<open>addServer\<close> calls on an active list with pairwise
  distinct names (the empty list of a fresh registry among them), every call returns, the
  servers are appended in the order of the calls, and the resulting names are pairwise
  distinct. The name of each new entry is resolved against the names in the list at the
  time of its call: its display name \<open>d\<close> when no entry bears it, and otherwise \<open>d_N\<close> for
  the first \<open>N = 1, 2, 3, ...\<close> whose \<open>d_N\<close> no entry bears. On a fresh registry the first
  entry of the sequence keeps its display name.
\<close>

theorem addServer_calls_names:
  assumes "distinct (availableServers st)"
  shows "\<exists>st' ns. calls env (map AddServer cfgs) st = Inr st' \<and>
           availableServers st' = availableServers st @ ns \<and>
           length ns = length cfgs \<and>
           distinct (availableServers st') \<and>
           (\<forall>i < length cfgs.
              resolved (ServerName (cfgs ! i)) (availableServers st @ take i ns) (ns ! i)) \<and>
           (s_servers st = [] \<and> cfgs \<noteq> [] \<longrightarrow> hd ns = ServerName (hd cfgs))"
  using assms
proof (induction cfgs arbitrary: st)
  case Nil
  then show ?case by simp
next
  case (Cons c cfgs)
  from addServer_result [of c st env] obtain nm srv c' st1 where
    nm: "resolved (ServerName c) (availableServers st) nm"
    and add: "addServer env c st = Inr (srv, c', st1)"
    and srv: "srv = \<lparr>addr = nextAddr st, configuration = c\<lparr>ServerName := nm\<rparr>\<rparr>"
    and st1: "st1 = save env (st\<lparr>nextAddr := Suc (nextAddr st),
                          s_servers := s_servers st @ [srv]\<rparr>)"
    by blast
  have names1: "availableServers st1 = availableServers st @ [nm]"
    by (simp add: st1 srv availableServers_def name_def)
  from nm have fresh: "nm \<notin> set (availableServers st)"
    by (simp add: resolved_def)
  with Cons.prems names1 have "distinct (availableServers st1)"
    by simp
  from Cons.IH [OF this] obtain st' ns where
    run: "calls env (map AddServer cfgs) st1 = Inr st'"
    and names: "availableServers st' = availableServers st1 @ ns"
    and len: "length ns = length cfgs"
    and dist: "distinct (availableServers st')"
    and res: "\<forall>i < length cfgs.
              resolved (ServerName (cfgs ! i)) (availableServers st1 @ take i ns) (ns ! i)"
    by blast
  from add run have 1: "calls env (map AddServer (c # cfgs)) st = Inr st'"
    by simp
  from names names1 have 2: "availableServers st' = availableServers st @ (nm # ns)"
    by simp
  from len have 3: "length (nm # ns) = length (c # cfgs)"
    by simp
  have 4: "\<forall>i < length (c # cfgs).
      resolved (ServerName ((c # cfgs) ! i)) (availableServers st @ take i (nm # ns)) ((nm # ns) ! i)"
  proof (intro allI impI)
    fix i assume i: "i < length (c # cfgs)"
    show "resolved (ServerName ((c # cfgs) ! i)) (availableServers st @ take i (nm # ns))
            ((nm # ns) ! i)"
    proof (cases i)
      case 0
      with nm show ?thesis by simp
    next
      case (Suc j)
      with i res names1 show ?thesis by simp
    qed
  qed
  have 5: "s_servers st = [] \<and> c # cfgs \<noteq> [] \<longrightarrow> hd (nm # ns) = ServerName (hd (c # cfgs))"
    using nm by (simp add: resolved_def availableServers_def)
  from 1 2 3 dist 4 5 show ?case by blast
qed

theorem addServer_calls_names_witness:
  "distinct (availableServers (processStart ([] :: ServerConfiguration option list))) \<and>
   namesAfter exampleEnv (map AddServer [cfg ''alpha'', cfg ''alpha'']) (processStart []) =
     Inr [''alpha'', ''alpha_1''] \<and>
   (\<exists>st'. calls exampleEnv (map AddServer [cfg ''alpha'', cfg ''alpha'']) (processStart []) = Inr st' \<and>
      availableServers st' = [''alpha'', ''alpha_1''] \<and>
      distinct (availableServers st') \<and>
      resolved ''alpha'' [] ''alpha'' \<and> resolved ''alpha'' [''alpha''] ''alpha_1'')"
proof -
  let ?s = "processStart ([] :: ServerConfiguration option list)"
  let ?cs = "[cfg ''alpha'', cfg ''alpha'']"
  have d: "distinct (availableServers ?s)"
    by code_simp
  have e: "availableServers ?s = []"
    by code_simp
  have n: "namesAfter exampleEnv (map AddServer ?cs) ?s = Inr [''alpha'', ''alpha_1'']"
    by code_simp
  from addServer_calls_names [OF d, of exampleEnv ?cs] obtain st' ns where
    r: "calls exampleEnv (map AddServer ?cs) ?s = Inr st'"
       "availableServers st' = availableServers ?s @ ns"
       "distinct (availableServers st')"
       "\<forall>i < length ?cs. resolved (ServerName (?cs ! i)) (availableServers ?s @ take i ns) (ns ! i)"
    by blast
  from r(1) n have names: "availableServers st' = [''alpha'', ''alpha_1'']"
    by (simp add: namesAfter_def)
  with r(2) e have ns: "ns = [''alpha'', ''alpha_1'']"
    by simp
  have "resolved (ServerName (?cs ! 0)) (availableServers ?s @ take 0 ns) (ns ! 0)"
    using r(4) [THEN spec, of 0] by simp
  moreover have "resolved (ServerName (?cs ! 1)) (availableServers ?s @ take 1 ns) (ns ! 1)"
    using r(4) [THEN spec, of 1] by simp
  ultimately have "resolved ''alpha'' [] ''alpha''" "resolved ''alpha'' [''alpha''] ''alpha_1''"
    using e ns by (simp_all add: cfg_def)
  with d n r(1,3) names show ?thesis by blast
qed

section \<open>The order of the sources\<close>

text \<open>
  C2. The claim: with nothing from the store and nothing from the directory, the active
  list holds exactly one server, built from the default configuration. The first two parts
  of the claim hold: a non-empty store keeps the directory from being looked up, and an
  importable file keeps the default from being appended. The third does not hold for a
  directory whose listed file opens but is not importable. Here the store is empty. With
  the file \<open>b.cfg\<close>, whose node makes the constructor throw, the exception leaves the
  \<^verbatim>\<open>try\<close> block before the default is appended: bootstrap returns with a warning and an
  empty active list. With the file \<open>a.cfg\<close>, in which the parser finds no node,
  \<^verbatim>\<open>yaml.first()\<close> is evaluated on an empty list.
\<close>

theorem bootstrap_unimportable_file_no_default:
  "\<not> importable badFileEnv ''b.cfg'' \<and>
   bootstrap badFileEnv [] =
     Inr \<lparr>s_instance = True, s_servers = [], s_deletedServers = [], nextAddr = 0,
          ServerConfigurationList = [],
          warnings = [''Problem loading servers from Preferences file:'' @ [CHR 0x0A] @
                      ''Invalid server configuration''],
          qDebug = [''Server Directory set to: /share'',
                    ''Reading server configutation from: /share/b.cfg''],
          qLogError = []\<rparr> \<and>
   \<not> importable emptyFileEnv ''a.cfg'' \<and>
   bootstrapNames emptyFileEnv [] = Inl (Abort ''QList::first: list is empty'')"
  by code_simp

section \<open>A stored record that fails\<close>

text \<open>
  C3. The claim: after bootstrap the active list is never empty, also when constructing a
  configuration from a stored record fails. The code: the fallbacks are inside the same
  \<^verbatim>\<open>try\<close> block as the loop over the records, so the exception skips them. Here the
  store holds one malformed record: bootstrap returns with a warning and an empty active
  list; the directory is not looked up and the default is not appended.
\<close>

theorem bootstrap_failed_record_leaves_no_server:
  "bootstrap exampleEnv [None] =
     Inr \<lparr>s_instance = True, s_servers = [], s_deletedServers = [], nextAddr = 0,
          ServerConfigurationList = [None],
          warnings = [''Problem loading servers from Preferences file:'' @ [CHR 0x0A] @
                      ''Invalid server configuration''],
          qDebug = [], qLogError = []\<rparr>"
  by code_simp

section \<open>Names between operations\<close>

text \<open>
  C4. The claim, as stated, includes the point right after bootstrap for every stored
  list. Bootstrap appends one server per stored record under the record's own name; with
  two records of the same name the active list holds that name twice.
\<close>

theorem bootstrap_duplicate_records_counterexample:
  "bootstrapNames exampleEnv [Some (cfg ''a''), Some (cfg ''a'')] = Inr [''a'', ''a''] \<and>
   \<not> distinct [''a'', ''a'']"
  by code_simp

text \<open>
  C4, amended. When the stored records from which a configuration is constructed carry
  pairwise distinct names, the names of the active list are pairwise distinct after
  bootstrap and after every sequence of calls that returns.
\<close>

theorem names_distinct_between_operations:
  assumes "distinct (recordNames env stored)"
    and "bootstrap env stored = Inr st"
    and "calls env cs st = Inr st'"
  shows "distinct (availableServers st')"
proof -
  let ?st0 = "(processStart stored)\<lparr>s_instance := True\<rparr>"
  from assms(2) have "loadFromPreferences env ?st0 = Inr st"
    by (simp add: bootstrap_def instanceRegistry_def processStart_def)
  moreover have "ServerConfigurationList ?st0 = stored" "s_servers ?st0 = []"
    by (simp_all add: processStart_def)
  ultimately have "distinct (availableServers st)"
    using assms(1) by (intro loadFromPreferences_distinct [of env ?st0 st]) simp_all
  with assms(3) show ?thesis by (rule calls_distinct_names)
qed

theorem names_distinct_between_operations_witness:
  "distinct (recordNames exampleEnv [Some (cfg ''a''), Some (cfg ''b'')]) \<and>
   (\<exists>st st'. bootstrap exampleEnv [Some (cfg ''a''), Some (cfg ''b'')] = Inr st \<and>
      calls exampleEnv [AddServer (cfg ''a''), MoveDown ''a'', RemoveName ''b''] st = Inr st' \<and>
      distinct (availableServers st'))"
proof -
  let ?st = "\<lparr>s_instance = True,
        s_servers = [\<lparr>addr = 0, configuration = cfg ''a''\<rparr>,
                     \<lparr>addr = 1, configuration = cfg ''b''\<rparr>],
        s_deletedServers = [], nextAddr = 2,
        ServerConfigurationList = [Some (cfg ''a''), Some (cfg ''b'')],
        warnings = [], qDebug = [], qLogError = []\<rparr>"
  let ?st' = "\<lparr>s_instance = True,
        s_servers = [\<lparr>addr = 0, configuration = cfg ''a''\<rparr>,
                     \<lparr>addr = 2, configuration = cfg ''a_1''\<rparr>],
        s_deletedServers = [\<lparr>addr = 1, configuration = cfg ''b''\<rparr>], nextAddr = 3,
        ServerConfigurationList = [Some (cfg ''a''), Some (cfg ''a_1'')],
        warnings = [], qDebug = [], qLogError = []\<rparr>"
  have d: "distinct (recordNames exampleEnv [Some (cfg ''a''), Some (cfg ''b'')])"
    by code_simp
  have b: "bootstrap exampleEnv [Some (cfg ''a''), Some (cfg ''b'')] = Inr ?st"
    by code_simp
  have c: "calls exampleEnv [AddServer (cfg ''a''), MoveDown ''a'', RemoveName ''b''] ?st = Inr ?st'"
    by code_simp
  from names_distinct_between_operations [OF d b c] have "distinct (availableServers ?st')" .
  with d b c show ?thesis by blast
qed

section \<open>The round trip through the store\<close>

text \<open>
  C5. The claim, as stated, covers every active list. After saving an empty active list
  the stored list is empty, and a fresh bootstrap falls through to the default
  configuration: the reloaded list holds one server where the saved one held none.
\<close>

theorem reload_empty_counterexample:
  "calls exampleEnv [RemoveName ''a''] oneServer = Inr noServers \<and>
   map configuration (s_servers noServers) = [] \<and>
   reloadedConfigurations exampleEnv noServers = Inr [cfg ''Server'']"
  by code_simp

text \<open>
  C5, amended. For every non-empty active list whose configurations are read back
  unchanged from their stored records, saving and then bootstrapping a fresh process from
  the stored list gives the same configurations in the same order.
\<close>

theorem save_reload_roundtrip:
  assumes "s_servers st \<noteq> []"
    and "\<forall>s \<in> set (s_servers st).
           fromQVariant env (toQVariant env (configuration s)) = Inr (configuration s)"
  shows "reloadedConfigurations env st = Inr (map configuration (s_servers st))"
proof -
  let ?cs = "map configuration (s_servers st)"
  let ?rs = "map (toQVariant env) ?cs"
  let ?st0 = "(processStart ?rs)\<lparr>s_instance := True\<rparr>"
  have stored: "ServerConfigurationList (saveToPreferences env st) = ?rs"
    by (simp add: saveToPreferences_def)
  from assms(2) have "\<forall>c \<in> set ?cs. fromQVariant env (toQVariant env c) = Inr c"
    by simp
  from loadRecords_converted [OF this, of ?st0] obtain st' where
    st': "loadRecords env ?rs ?st0 = Inr st'"
         "map configuration (s_servers st') = map configuration (s_servers ?st0) @ ?cs"
    by blast
  from assms(1) have ne: "ServerConfigurationList ?st0 \<noteq> []"
    by (simp add: processStart_def)
  have "ServerConfigurationList ?st0 = ?rs"
    by (simp add: processStart_def)
  with st'(1) try_nonempty_store [OF ne, of env] have "loadFromPreferences env ?st0 = Inr st'"
    by (simp add: loadFromPreferences_def)
  then have "reload env st = Inr st'"
    unfolding reload_def stored by (simp add: bootstrap_def instanceRegistry_def processStart_def)
  moreover from st'(2) have "map configuration (s_servers st') = ?cs"
    by (simp add: processStart_def)
  ultimately show ?thesis
    by (simp add: reloadedConfigurations_def)
qed

theorem save_reload_roundtrip_witness:
  "s_servers threeServers \<noteq> [] \<and>
   map (\<lambda>s. fromQVariant exampleEnv (toQVariant exampleEnv (configuration s)))
       (s_servers threeServers) =
     map (\<lambda>s. Inr (configuration s)) (s_servers threeServers) \<and>
   reloadedConfigurations exampleEnv threeServers = Inr [cfg ''a'', cfg ''b'', cfg ''c'']"
proof -
  have ne: "s_servers threeServers \<noteq> []"
    by code_simp
  have rt': "map (\<lambda>s. fromQVariant exampleEnv (toQVariant exampleEnv (configuration s)))
       (s_servers threeServers) =
     map (\<lambda>s. Inr (configuration s)) (s_servers threeServers)"
    by code_simp
  then have rt: "\<forall>s \<in> set (s_servers threeServers).
      fromQVariant exampleEnv (toQVariant exampleEnv (configuration s)) = Inr (configuration s)"
    by simp
  have cs: "map configuration (s_servers threeServers) = [cfg ''a'', cfg ''b'', cfg ''c'']"
    by code_simp
  from save_reload_roundtrip [OF ne rt] cs
  have "reloadedConfigurations exampleEnv threeServers = Inr [cfg ''a'', cfg ''b'', cfg ''c'']"
    by simp
  with ne rt' show ?thesis by blast
qed

section \<open>Removing a server\<close>

text \<open>
  C6. The claim, as stated, covers every name present in the active list.
  \<^verbatim>\<open>remove\<close> takes out the first entry that bears the name. A registry bootstrapped
  from a store with two records \<open>a\<close> holds the name \<open>a\<close> twice: after
  \<^verbatim>\<open>remove("a")\<close>, \<^verbatim>\<open>find("a")\<close> returns the second server, \<^verbatim>\<open>indexOf\<close>
  returns 0 and \<^verbatim>\<open>availableServers\<close> still lists \<open>a\<close>.
\<close>

theorem remove_repeated_name_counterexample:
  "bootstrapNames exampleEnv [Some (cfg ''a''), Some (cfg ''a'')] = Inr [''a'', ''a''] \<and>
   sessionFind exampleEnv [Some (cfg ''a''), Some (cfg ''a'')] [RemoveName ''a''] ''a'' =
     Inr (Some \<lparr>addr = 1, configuration = cfg ''a''\<rparr>) \<and>
   sessionIndexOf exampleEnv [Some (cfg ''a''), Some (cfg ''a'')] [RemoveName ''a''] ''a'' = Inr 0 \<and>
   sessionNames exampleEnv [Some (cfg ''a''), Some (cfg ''a'')] [RemoveName ''a''] = Inr [''a'']"
  by code_simp

text \<open>
  C6, amended. In every state whose live objects are at different addresses: removing a
  name that is present returns; the removed server is an entry of that name, now the last
  of the deferred-destruction list; after any further sequence of calls that returns it
  is still in the deferred-destruction list, is not in the active list, and is neither
  the result of \<^verbatim>\<open>find\<close> nor at a position that \<^verbatim>\<open>indexOf\<close> returns. When the
  name occurs exactly once in the active list (as every name does when the names are
  pairwise distinct), \<^verbatim>\<open>find\<close> and \<^verbatim>\<open>indexOf\<close> no longer find the name after the
  removal and \<^verbatim>\<open>availableServers\<close> no longer lists it. Removing a name that is absent
  returns with both lists unchanged and the store persisted.
\<close>

theorem remove_then_find:
  assumes "liveObjects st"
  shows "(n \<in> set (availableServers st) \<longrightarrow>
           (\<exists>st' s. removeName env n st = Inr st' \<and> s \<in> set (s_servers st) \<and> name s = n \<and>
              s_deletedServers st' = s_deletedServers st @ [s] \<and>
              (count_list (availableServers st) n = 1 \<longrightarrow>
                 findServer st' n = Inr None \<and> indexOf st' n = Inr (- 1) \<and>
                 n \<notin> set (availableServers st')) \<and>
              (\<forall>cs st''. calls env cs st' = Inr st'' \<longrightarrow>
                 s \<in> set (s_deletedServers st'') \<and>
                 addr s \<notin> addr ` set (s_servers st'') \<and>
                 (\<forall>m p. findServer st'' m = Inr (Some p) \<longrightarrow> addr p \<noteq> addr s) \<and>
                 (\<forall>m k. indexOf st'' m = Inr k \<and> 0 \<le> k \<longrightarrow>
                    addr (s_servers st'' ! nat k) \<noteq> addr s)))) \<and>
         (n \<notin> set (availableServers st) \<longrightarrow>
           (\<exists>st'. removeName env n st = Inr st' \<and> s_servers st' = s_servers st \<and>
              s_deletedServers st' = s_deletedServers st \<and> persisted env st'))"
proof (intro conjI impI)
  assume "n \<notin> set (availableServers st)"
  from removeName_absent [OF this, of env]
  show "\<exists>st'. removeName env n st = Inr st' \<and> s_servers st' = s_servers st \<and>
              s_deletedServers st' = s_deletedServers st \<and> persisted env st'"
    by simp
next
  assume present: "n \<in> set (availableServers st)"
  from removeName_present [OF present, of env] obtain k where
    k: "k < length (s_servers st)" "name (s_servers st ! k) = n"
    and r: "removeName env n st =
             Inr (save env (st\<lparr>s_servers := take k (s_servers st) @ drop (Suc k) (s_servers st),
                               s_deletedServers := s_deletedServers st @ [s_servers st ! k]\<rparr>))"
    by blast
  define st' where "st' = save env (st\<lparr>s_servers := take k (s_servers st) @ drop (Suc k) (s_servers st),
                               s_deletedServers := s_deletedServers st @ [s_servers st ! k]\<rparr>)"
  define s where "s = s_servers st ! k"
  from r have r': "removeName env n st = Inr st'" by (simp add: st'_def)
  from k have s_in: "s \<in> set (s_servers st)" and s_name: "name s = n"
    by (simp_all add: s_def)
  have del: "s_deletedServers st' = s_deletedServers st @ [s]"
    by (simp add: st'_def s_def)
  from taken_out [OF k(1)] obtain a x b where
    ab: "s_servers st = a @ x # b" "take k (s_servers st) = a"
        "drop (Suc k) (s_servers st) = b" "s_servers st ! k = x"
    by blast
  have once: "findServer st' n = Inr None \<and> indexOf st' n = Inr (- 1) \<and>
                 n \<notin> set (availableServers st')"
    if one: "count_list (availableServers st) n = 1"
  proof -
    from one have "count_list (map name (a @ x # b)) n = 1"
      unfolding availableServers_def ab(1) .
    with k(2) ab(4) have "count_list (map name a) n = 0" "count_list (map name b) n = 0"
      by simp_all
    then have "n \<notin> set (map name a)" "n \<notin> set (map name b)"
      using count_list_0_iff [of "map name a" n] count_list_0_iff [of "map name b" n]
      by blast+
    with ab(2,3) have gone: "n \<notin> set (availableServers st')"
      by (auto simp: st'_def availableServers_def)
    with findServer_absent [OF gone] indexOf_absent [OF gone] show ?thesis
      by blast
  qed
  have live: "liveObjects st'"
    using call_liveObjects [of env "RemoveName n" st st'] r' assms by simp
  have later: "s \<in> set (s_deletedServers st'') \<and>
                 addr s \<notin> addr ` set (s_servers st'') \<and>
                 (\<forall>m p. findServer st'' m = Inr (Some p) \<longrightarrow> addr p \<noteq> addr s) \<and>
                 (\<forall>m k. indexOf st'' m = Inr k \<and> 0 \<le> k \<longrightarrow>
                    addr (s_servers st'' ! nat k) \<noteq> addr s)"
    if run: "calls env cs st' = Inr st''" for cs st''
  proof -
    from calls_deleted_kept [OF run] del have 1: "s \<in> set (s_deletedServers st'')"
      by auto
    from calls_liveObjects [OF run live]
    have "distinct (map addr (s_servers st'' @ s_deletedServers st''))"
      by (simp add: liveObjects_def)
    with 1 have 2: "addr s \<notin> addr ` set (s_servers st'')"
      by auto
    have 3: "addr p \<noteq> addr s" if "findServer st'' m = Inr (Some p)" for m p
      using findServer_Some [OF that] 2 by (metis imageI)
    have 4: "addr (s_servers st'' ! nat j) \<noteq> addr s" if "indexOf st'' m = Inr j \<and> 0 \<le> j" for m j
    proof -
      from that indexOf_Some [of st'' m j] have "s_servers st'' ! nat j \<in> set (s_servers st'')"
        by simp
      with 2 show ?thesis by (metis imageI)
    qed
    from 1 2 3 4 show ?thesis by blast
  qed
  from once have once': "count_list (availableServers st) n = 1 \<longrightarrow>
                 findServer st' n = Inr None \<and> indexOf st' n = Inr (- 1) \<and>
                 n \<notin> set (availableServers st')"
    by blast
  from later have later': "\<forall>cs st''. calls env cs st' = Inr st'' \<longrightarrow>
                 s \<in> set (s_deletedServers st'') \<and>
                 addr s \<notin> addr ` set (s_servers st'') \<and>
                 (\<forall>m p. findServer st'' m = Inr (Some p) \<longrightarrow> addr p \<noteq> addr s) \<and>
                 (\<forall>m k. indexOf st'' m = Inr k \<and> 0 \<le> k \<longrightarrow>
                    addr (s_servers st'' ! nat k) \<noteq> addr s)"
    by blast
  from r' s_in s_name del once' later'
  show "\<exists>st' s. removeName env n st = Inr st' \<and> s \<in> set (s_servers st) \<and> name s = n \<and>
              s_deletedServers st' = s_deletedServers st @ [s] \<and>
              (count_list (availableServers st) n = 1 \<longrightarrow>
                 findServer st' n = Inr None \<and> indexOf st' n = Inr (- 1) \<and>
                 n \<notin> set (availableServers st')) \<and>
              (\<forall>cs st''. calls env cs st' = Inr st'' \<longrightarrow>
                 s \<in> set (s_deletedServers st'') \<and>
                 addr s \<notin> addr ` set (s_servers st'') \<and>
                 (\<forall>m p. findServer st'' m = Inr (Some p) \<longrightarrow> addr p \<noteq> addr s) \<and>
                 (\<forall>m k. indexOf st'' m = Inr k \<and> 0 \<le> k \<longrightarrow>
                    addr (s_servers st'' ! nat k) \<noteq> addr s))"
    by blast
qed

theorem remove_then_find_witness:
  "liveObjects threeServers \<and>
   ''b'' \<in> set (availableServers threeServers) \<and>
   count_list (availableServers threeServers) ''b'' = 1 \<and>
   (\<exists>st' s. removeName exampleEnv ''b'' threeServers = Inr st' \<and> name s = ''b'' \<and>
      s_deletedServers st' = s_deletedServers threeServers @ [s] \<and>
      findServer st' ''b'' = Inr None \<and> indexOf st' ''b'' = Inr (- 1) \<and>
      ''b'' \<notin> set (availableServers st') \<and>
      (\<forall>cs st''. calls exampleEnv cs st' = Inr st'' \<longrightarrow>
         s \<in> set (s_deletedServers st'') \<and> addr s \<notin> addr ` set (s_servers st''))) \<and>
   ''zzz'' \<notin> set (availableServers threeServers) \<and>
   (\<exists>st'. removeName exampleEnv ''zzz'' threeServers = Inr st' \<and>
      s_servers st' = s_servers threeServers \<and>
      s_deletedServers st' = s_deletedServers threeServers)"
proof -
  have l: "liveObjects threeServers"
    by code_simp
  have p: "''b'' \<in> set (availableServers threeServers)"
    by code_simp
  have o: "count_list (availableServers threeServers) ''b'' = 1"
    by code_simp
  have a: "''zzz'' \<notin> set (availableServers threeServers)"
    by code_simp
  from remove_then_find [OF l, of "''b''" exampleEnv] p o
  have 1: "\<exists>st' s. removeName exampleEnv ''b'' threeServers = Inr st' \<and> name s = ''b'' \<and>
      s_deletedServers st' = s_deletedServers threeServers @ [s] \<and>
      findServer st' ''b'' = Inr None \<and> indexOf st' ''b'' = Inr (- 1) \<and>
      ''b'' \<notin> set (availableServers st') \<and>
      (\<forall>cs st''. calls exampleEnv cs st' = Inr st'' \<longrightarrow>
         s \<in> set (s_deletedServers st'') \<and> addr s \<notin> addr ` set (s_servers st''))"
    by blast
  from remove_then_find [OF l, of "''zzz''" exampleEnv] a
  have 2: "\<exists>st'. removeName exampleEnv ''zzz'' threeServers = Inr st' \<and>
      s_servers st' = s_servers threeServers \<and>
      s_deletedServers st' = s_deletedServers threeServers"
    by blast
  from l p o a 1 2 show ?thesis by blast
qed

section \<open>Moving entries up and down\<close>

text \<open>
  C7. The claim, as stated, covers every active list. \<^verbatim>\<open>moveUp\<close> and
  \<^verbatim>\<open>moveDown\<close> look the entry up by name and act on the first entry that bears it.
  A registry bootstrapped from a store with the records \<open>a\<close>, \<open>b\<close>, \<open>a\<close> holds the
  names \<open>a\<close>, \<open>b\<close>, \<open>a\<close>: \<^verbatim>\<open>moveDown\<close> on \<open>a\<close>, the name of the last entry,
  exchanges the first two entries, and \<^verbatim>\<open>moveUp\<close> on \<open>a\<close>, the name of the entry at
  the third position, changes nothing.
\<close>

theorem move_repeated_name_counterexample:
  "bootstrapNames exampleEnv [Some (cfg ''a''), Some (cfg ''b''), Some (cfg ''a'')] =
     Inr [''a'', ''b'', ''a''] \<and>
   sessionNames exampleEnv [Some (cfg ''a''), Some (cfg ''b''), Some (cfg ''a'')] [MoveDown ''a''] =
     Inr [''b'', ''a'', ''a''] \<and>
   sessionNames exampleEnv [Some (cfg ''a''), Some (cfg ''b''), Some (cfg ''a'')] [MoveUp ''a''] =
     Inr [''a'', ''b'', ''a'']"
  by code_simp

text \<open>
  C7, amended. For every active list: \<^verbatim>\<open>moveUp\<close> on the name of the first entry
  returns and leaves the list as it is; \<^verbatim>\<open>moveDown\<close> on the name of the last entry
  does so when no earlier entry bears that name. For an entry at a position \<open>i\<close> that is
  the first to bear its name (every entry is, when the names are pairwise distinct),
  \<^verbatim>\<open>moveUp\<close> on its name with \<open>i > 0\<close> exchanges the entries at \<open>i\<close> and \<open>i - 1\<close>,
  \<^verbatim>\<open>moveDown\<close> on its name with \<open>i\<close> not the last position exchanges the entries at
  \<open>i\<close> and \<open>i + 1\<close>; every other position keeps its entry.
\<close>

theorem moveUp_moveDown_order:
  "(s_servers st \<noteq> [] \<longrightarrow>
      (\<exists>st'. moveUp env (name (hd (s_servers st))) st = Inr st' \<and>
             s_servers st' = s_servers st)) \<and>
   (s_servers st \<noteq> [] \<and>
    (\<forall>j < length (s_servers st) - 1. name (s_servers st ! j) \<noteq> name (last (s_servers st))) \<longrightarrow>
      (\<exists>st'. moveDown env (name (last (s_servers st))) st = Inr st' \<and>
             s_servers st' = s_servers st)) \<and>
   (\<forall>i. 0 < i \<and> i < length (s_servers st) \<and>
        (\<forall>j<i. name (s_servers st ! j) \<noteq> name (s_servers st ! i)) \<longrightarrow>
      (\<exists>st'. moveUp env (name (s_servers st ! i)) st = Inr st' \<and>
             s_servers st' =
               (s_servers st)[i := s_servers st ! (i - 1), i - 1 := s_servers st ! i] \<and>
             (\<forall>j. j \<noteq> i \<and> j \<noteq> i - 1 \<longrightarrow> s_servers st' ! j = s_servers st ! j))) \<and>
   (\<forall>i. Suc i < length (s_servers st) \<and>
        (\<forall>j<i. name (s_servers st ! j) \<noteq> name (s_servers st ! i)) \<longrightarrow>
      (\<exists>st'. moveDown env (name (s_servers st ! i)) st = Inr st' \<and>
             s_servers st' =
               (s_servers st)[i := s_servers st ! Suc i, Suc i := s_servers st ! i] \<and>
             (\<forall>j. j \<noteq> i \<and> j \<noteq> Suc i \<longrightarrow> s_servers st' ! j = s_servers st ! j)))"
proof (intro conjI)
  show "s_servers st \<noteq> [] \<longrightarrow>
      (\<exists>st'. moveUp env (name (hd (s_servers st))) st = Inr st' \<and>
             s_servers st' = s_servers st)"
  proof
    assume ne: "s_servers st \<noteq> []"
    then have "0 < length (s_servers st)" by simp
    from move_first_bearer(1) [OF this, of env] ne
    have "moveUp env (name (hd (s_servers st))) st = Inr (save env st)"
      by (simp add: hd_conv_nth)
    then show "\<exists>st'. moveUp env (name (hd (s_servers st))) st = Inr st' \<and>
             s_servers st' = s_servers st"
      by simp
  qed
next
  show "s_servers st \<noteq> [] \<and>
    (\<forall>j < length (s_servers st) - 1. name (s_servers st ! j) \<noteq> name (last (s_servers st))) \<longrightarrow>
      (\<exists>st'. moveDown env (name (last (s_servers st))) st = Inr st' \<and>
             s_servers st' = s_servers st)"
  proof
    assume a: "s_servers st \<noteq> [] \<and>
      (\<forall>j < length (s_servers st) - 1. name (s_servers st ! j) \<noteq> name (last (s_servers st)))"
    let ?i = "length (s_servers st) - 1"
    from a have i: "?i < length (s_servers st)" by simp
    from a have l: "last (s_servers st) = s_servers st ! ?i" by (simp add: last_conv_nth)
    from a l have first: "\<forall>j < ?i. name (s_servers st ! j) \<noteq> name (s_servers st ! ?i)"
      by simp
    from i have "\<not> Suc ?i < length (s_servers st)" by simp
    with move_first_bearer(2) [OF i first, of env] l
    have "moveDown env (name (last (s_servers st))) st = Inr (save env st)"
      by simp
    then show "\<exists>st'. moveDown env (name (last (s_servers st))) st = Inr st' \<and>
             s_servers st' = s_servers st"
      by simp
  qed
next
  show "\<forall>i. 0 < i \<and> i < length (s_servers st) \<and>
        (\<forall>j<i. name (s_servers st ! j) \<noteq> name (s_servers st ! i)) \<longrightarrow>
      (\<exists>st'. moveUp env (name (s_servers st ! i)) st = Inr st' \<and>
             s_servers st' =
               (s_servers st)[i := s_servers st ! (i - 1), i - 1 := s_servers st ! i] \<and>
             (\<forall>j. j \<noteq> i \<and> j \<noteq> i - 1 \<longrightarrow> s_servers st' ! j = s_servers st ! j))"
  proof (intro allI impI)
    fix i
    assume a: "0 < i \<and> i < length (s_servers st) \<and>
        (\<forall>j<i. name (s_servers st ! j) \<noteq> name (s_servers st ! i))"
    then have i: "i < length (s_servers st)"
      and first: "\<forall>j<i. name (s_servers st ! j) \<noteq> name (s_servers st ! i)"
      by simp_all
    from move_first_bearer(1) [OF i first, of env] a
    have "moveUp env (name (s_servers st ! i)) st =
      Inr (save env (st\<lparr>s_servers :=
             (s_servers st)[i := s_servers st ! (i - 1), i - 1 := s_servers st ! i]\<rparr>))"
      by simp
    then show "\<exists>st'. moveUp env (name (s_servers st ! i)) st = Inr st' \<and>
             s_servers st' =
               (s_servers st)[i := s_servers st ! (i - 1), i - 1 := s_servers st ! i] \<and>
             (\<forall>j. j \<noteq> i \<and> j \<noteq> i - 1 \<longrightarrow> s_servers st' ! j = s_servers st ! j)"
      by simp
  qed
next
  show "\<forall>i. Suc i < length (s_servers st) \<and>
        (\<forall>j<i. name (s_servers st ! j) \<noteq> name (s_servers st ! i)) \<longrightarrow>
      (\<exists>st'. moveDown env (name (s_servers st ! i)) st = Inr st' \<and>
             s_servers st' =
               (s_servers st)[i := s_servers st ! Suc i, Suc i := s_servers st ! i] \<and>
             (\<forall>j. j \<noteq> i \<and> j \<noteq> Suc i \<longrightarrow> s_servers st' ! j = s_servers st ! j))"
  proof (intro allI impI)
    fix i
    assume a: "Suc i < length (s_servers st) \<and>
        (\<forall>j<i. name (s_servers st ! j) \<noteq> name (s_servers st ! i))"
    then have i: "i < length (s_servers st)"
      and first: "\<forall>j<i. name (s_servers st ! j) \<noteq> name (s_servers st ! i)"
      by simp_all
    from move_first_bearer(2) [OF i first, of env] a
    have "moveDown env (name (s_servers st ! i)) st =
      Inr (save env (st\<lparr>s_servers :=
             (s_servers st)[i := s_servers st ! Suc i, Suc i := s_servers st ! i]\<rparr>))"
      by simp
    then show "\<exists>st'. moveDown env (name (s_servers st ! i)) st = Inr st' \<and>
             s_servers st' =
               (s_servers st)[i := s_servers st ! Suc i, Suc i := s_servers st ! i] \<and>
             (\<forall>j. j \<noteq> i \<and> j \<noteq> Suc i \<longrightarrow> s_servers st' ! j = s_servers st ! j)"
      by simp
  qed
qed

theorem moveUp_moveDown_order_witness:
  "s_servers threeServers \<noteq> [] \<and>
   name (s_servers threeServers ! 0) \<noteq> name (last (s_servers threeServers)) \<and>
   name (s_servers threeServers ! 1) \<noteq> name (last (s_servers threeServers)) \<and>
   name (s_servers threeServers ! 0) \<noteq> name (s_servers threeServers ! 1) \<and>
   (\<exists>st'. moveUp exampleEnv ''a'' threeServers = Inr st' \<and>
          s_servers st' = s_servers threeServers) \<and>
   (\<exists>st'. moveDown exampleEnv ''c'' threeServers = Inr st' \<and>
          s_servers st' = s_servers threeServers) \<and>
   (\<exists>st'. moveUp exampleEnv ''b'' threeServers = Inr st' \<and>
          availableServers st' = [''b'', ''a'', ''c'']) \<and>
   (\<exists>st'. moveDown exampleEnv ''b'' threeServers = Inr st' \<and>
          availableServers st' = [''a'', ''c'', ''b''])"
proof -
  let ?xs = "s_servers threeServers"
  have ne: "?xs \<noteq> []"
    and a: "name (hd ?xs) = ''a''"
    and c: "name (last ?xs) = ''c''"
    and b: "name (?xs ! 1) = ''b''"
    and n0: "name (?xs ! 0) = ''a''"
    and len: "length ?xs = 3"
    by (simp_all add: threeServers_def name_def cfg_def)
  have d1: "name (?xs ! 0) \<noteq> name (last ?xs)" "name (?xs ! 1) \<noteq> name (last ?xs)"
    "name (?xs ! 0) \<noteq> name (?xs ! 1)"
    using n0 b c by simp_all
  have last_first: "\<forall>j < length ?xs - 1. name (?xs ! j) \<noteq> name (last ?xs)"
  proof (intro allI impI)
    fix j assume "j < length ?xs - 1"
    with len have "j = 0 \<or> j = 1" by auto
    with d1 show "name (?xs ! j) \<noteq> name (last ?xs)" by auto
  qed
  have b_first: "\<forall>j<1. name (?xs ! j) \<noteq> name (?xs ! 1)"
    using d1(3) by simp
  note t = moveUp_moveDown_order [of threeServers exampleEnv]
  from t ne a have 1: "\<exists>st'. moveUp exampleEnv ''a'' threeServers = Inr st' \<and>
          s_servers st' = ?xs"
    by auto
  from t ne last_first c have 2: "\<exists>st'. moveDown exampleEnv ''c'' threeServers = Inr st' \<and>
          s_servers st' = ?xs"
    by auto
  have up: "0 < (1::nat) \<and> 1 < length ?xs \<and> (\<forall>j<1. name (?xs ! j) \<noteq> name (?xs ! 1))"
    using len b_first by simp
  from t [THEN conjunct2, THEN conjunct2, THEN conjunct1, THEN spec, of 1] up b
  obtain st1 where st1: "moveUp exampleEnv ''b'' threeServers = Inr st1"
    "s_servers st1 = ?xs[1 := ?xs ! (1 - 1), 1 - 1 := ?xs ! 1]"
    by auto
  from st1(2) have "availableServers st1 = [''b'', ''a'', ''c'']"
    by (simp add: availableServers_def threeServers_def name_def cfg_def)
  with st1(1) have 3: "\<exists>st'. moveUp exampleEnv ''b'' threeServers = Inr st' \<and>
          availableServers st' = [''b'', ''a'', ''c'']"
    by blast
  have down: "Suc 1 < length ?xs \<and> (\<forall>j<1. name (?xs ! j) \<noteq> name (?xs ! 1))"
    using len b_first by simp
  from t [THEN conjunct2, THEN conjunct2, THEN conjunct2, THEN spec, of 1] down b
  obtain st2 where st2: "moveDown exampleEnv ''b'' threeServers = Inr st2"
    "s_servers st2 = ?xs[1 := ?xs ! Suc 1, Suc 1 := ?xs ! 1]"
    by auto
  from st2(2) have "availableServers st2 = [''a'', ''c'', ''b'']"
    by (simp add: availableServers_def threeServers_def name_def cfg_def)
  with st2(1) have 4: "\<exists>st'. moveDown exampleEnv ''b'' threeServers = Inr st' \<and>
          availableServers st' = [''a'', ''c'', ''b'']"
    by blast
  from ne d1 1 2 3 4 show ?thesis by blast
qed

section \<open>A file without a configuration block\<close>

text \<open>
  C8. The claim: when the parse completes and the document holds no configuration block,
  \<^verbatim>\<open>loadFromFile\<close> reports failure rather than crashing. The code tests
  \<^verbatim>\<open>yaml.first()\<close> on the list returned by \<^verbatim>\<open>findData\<close>, which is empty when
  there is no block: \<^verbatim>\<open>QList::first()\<close> requires a non-empty list. Here the file opens
  and the parser finds no node; the same happens to a bootstrap that meets this file.
\<close>

theorem loadFromFile_without_block_aborts:
  "fileOpens emptyFileEnv ''/share/a.cfg'' \<and> parserYaml emptyFileEnv ''/share/a.cfg'' = [] \<and>
   loadFromFile emptyFileEnv ''/share/a.cfg'' (defaultConfiguration emptyFileEnv) (processStart []) =
     Inl (Abort ''QList::first: list is empty'', processStart []) \<and>
   bootstrap emptyFileEnv [] = Inl (Abort ''QList::first: list is empty'')"
  by code_simp

section \<open>Persisting after every operation\<close>

text \<open>
  C9. The claim: every mutating operation ends with a full re-persist, also when the name
  is not found. The code: \<^verbatim>\<open>moveDown\<close> with a name that is not in a non-empty active
  list calls \<^verbatim>\<open>swap(-1, 0)\<close> before it reaches \<^verbatim>\<open>save()\<close>.
\<close>

theorem moveDown_unknown_name_never_saves:
  "call exampleEnv (MoveDown ''zzz'') threeServers = Inl (Abort ''QList::swap: index out of range'') \<and>
   calls exampleEnv [MoveDown ''zzz'', AddServer (cfg ''d'')] threeServers =
     Inl (Abort ''QList::swap: index out of range'')"
  by code_simp

section \<open>Moving an unknown name down\<close>

text \<open>
  C10. The claim: for a name that is not in the active list, \<^verbatim>\<open>moveDown\<close> on a
  non-empty list leaves the order alone and never swaps with a negative index. The code:
  \<^verbatim>\<open>indexOf\<close> returns -1, the guard \<^verbatim>\<open>index < s_servers.size() - 1\<close> holds for
  every non-empty list, and \<^verbatim>\<open>s_servers.swap(-1, 0)\<close> is called. \<^verbatim>\<open>moveUp\<close> guards
  with \<^verbatim>\<open>index > 0\<close> and is safe. Here: the registry is bootstrapped from a store with
  the one server \<open>a\<close>, then \<^verbatim>\<open>moveDown("zzz")\<close> is called.
\<close>

theorem moveDown_unknown_name_swaps_out_of_range:
  "instanceRegistry exampleEnv (processStart [Some (cfg ''a'')]) = Inr oneServer \<and>
   indexOf oneServer ''zzz'' = Inr (- 1) \<and>
   QList_swap (s_servers oneServer) (- 1) (- 1 + 1) = Inl (Abort ''QList::swap: index out of range'') \<and>
   moveDown exampleEnv ''zzz'' oneServer = Inl (Abort ''QList::swap: index out of range'') \<and>
   moveUp exampleEnv ''zzz'' oneServer = Inr oneServer"
  by code_simp

end
